theory Spec2Isabelle
  imports Main "HOL-Library.Word" "HOL-Library.Multiset"
    "HOL-Library.Char_ord" "HOL-Library.List_Lexorder"
begin

section \<open>BaudLink: the serial-port session layer (internal/serial)\<close>

text \<open>
  A shallow embedding of \<^verbatim>\<open>internal/serial/manager.go\<close> (Manager, Reader,
  LineReader, Scanner). Go pointers to \<^verbatim>\<open>Session\<close> become addresses into a heap
  (a list, address = index), because both lookup tables of the Manager hold
  pointers to the same objects. Everything the environment decides (the result
  of a driver call, a fresh UUID, the clock) is an explicit argument of the
  operation that asks for it. A runtime panic of Go is the error value
  \<open>Panic\<close>.
\<close>

subsection \<open>Errors\<close>

type_synonym byte = "8 word"

datatype error =
    ErrPortNotFound
  | ErrPortAlreadyOpen
  | ErrPortNotOpen
  | ErrPortLocked
  | ErrInvalidSession
  | ErrInvalidConfig
  | ErrWriteTimeout
  | ErrReadTimeout
  | ErrPortClosed
  | ErrInvalidBaudRate int    \<comment> \<open>\<^verbatim>\<open>fmt.Errorf("invalid baud rate: %d", ...)\<close>\<close>
  | ErrInvalidDataBits int    \<comment> \<open>\<^verbatim>\<open>fmt.Errorf("invalid data bits: %d", ...)\<close>\<close>
  | ErrWrap string error      \<comment> \<open>\<^verbatim>\<open>fmt.Errorf("...: %w", err)\<close>\<close>
  | ErrHardware nat           \<comment> \<open>an error value made by the serial driver\<close>
  | Panic string              \<comment> \<open>a runtime panic\<close>

text \<open>A panic is not an error value the loop could look at: it unwinds.\<close>

fun is_Panic :: "error \<Rightarrow> bool" where
  "is_Panic (Panic _) = True"
| "is_Panic _ = False"

subsection \<open>PortConfig\<close>

datatype Parity = ParityNone | ParityOdd | ParityEven | ParityMark | ParitySpace

datatype StopBits = StopBits1 | StopBits1Half | StopBits2

datatype FlowControl = FlowControlNone | FlowControlHardware | FlowControlSoftware

record PortConfig =
  BaudRate :: int
  DataBits :: int
  StopBits :: StopBits
  Parity :: Parity
  FlowControl :: FlowControl
  ReadTimeoutMs :: int
  WriteTimeoutMs :: int

definition DefaultConfig :: PortConfig where
  "DefaultConfig = \<lparr>BaudRate = 9600, DataBits = 8, StopBits = StopBits1,
     Parity = ParityNone, FlowControl = FlowControlNone,
     ReadTimeoutMs = 1000, WriteTimeoutMs = 1000\<rparr>"

definition Validate :: "PortConfig \<Rightarrow> error option" where
  "Validate c =
     (if BaudRate c < 1 then Some (ErrInvalidBaudRate (BaudRate c))
      else if DataBits c < 5 \<or> DataBits c > 8 then Some (ErrInvalidDataBits (DataBits c))
      else None)"

subsection \<open>Sessions and the Manager\<close>

text \<open>
  \<open>BytesSent\<close>, \<open>BytesReceived\<close> and \<open>Errors\<close> are \<^verbatim>\<open>uint64\<close>; a
  \<^verbatim>\<open>time.Time\<close> is a natural number read from the clock.
\<close>

record PortStatistics =
  BytesSent :: "64 word"
  BytesReceived :: "64 word"
  Errors :: "64 word"
  OpenedAt :: nat
  LastActivity :: nat

text \<open>
  A channel of the Go runtime: its buffered items, oldest first, and whether
  it has been closed. Every channel of this package is made with capacity 100.
\<close>

record 'a chan =
  chan_buf :: "'a list"
  chan_closed :: bool

definition chan_cap :: nat where
  "chan_cap = 100"

definition make_chan :: "'a chan" where
  "make_chan = \<lparr>chan_buf = [], chan_closed = False\<rparr>"

text \<open>
  \<open>port\<close> is the driver's handle. \<open>readers\<close> holds the channels made by
  \<open>SubscribeToReads\<close>; each is created there, kept only in this slice and handed
  out receive-only, so the slice owns them and they are kept by value.
\<close>

record Session =
  ID :: string
  PortName :: string
  ClientID :: string
  Exclusive :: bool
  Config :: PortConfig
  Statistics :: PortStatistics
  port :: nat
  closed :: bool
  readers :: "byte list chan list"

record Manager =
  sessions :: "string \<rightharpoonup> nat"
  sessionsByID :: "string \<rightharpoonup> nat"
  allowSharedAccess :: bool
  defaultConfig :: PortConfig

text \<open>The Manager together with the \<^verbatim>\<open>Session\<close> objects its tables point to.\<close>

record World =
  mgr :: Manager
  heap :: "Session list"

definition NewManager :: "bool \<Rightarrow> PortConfig \<Rightarrow> World" where
  "NewManager shared dflt =
     \<lparr>mgr = \<lparr>sessions = Map.empty, sessionsByID = Map.empty,
              allowSharedAccess = shared, defaultConfig = dflt\<rparr>,
      heap = []\<rparr>"

text \<open>
  What the environment contributes to one \<open>OpenPort\<close>: the result of
  \<^verbatim>\<open>serial.Open\<close> (an error code or a handle), the result of
  \<^verbatim>\<open>SetReadTimeout\<close>, the string of \<^verbatim>\<open>uuid.New()\<close>, and the two readings of
  \<^verbatim>\<open>time.Now()\<close>.
\<close>

record OpenEnv =
  serial_Open :: "nat + nat"
  open_SetReadTimeout :: "nat option"
  uuid_New :: string
  now_OpenedAt :: nat
  now_LastActivity :: nat

definition OpenPort ::
  "World \<Rightarrow> string \<Rightarrow> PortConfig \<Rightarrow> string \<Rightarrow> bool \<Rightarrow> OpenEnv \<Rightarrow> World \<times> (error + nat)" where
  "OpenPort w portName config clientID exclusive env =
     (case Validate config of
        Some err \<Rightarrow> (w, Inl err)
      | None \<Rightarrow>
         if (case sessions (mgr w) portName of
               Some existingSession \<Rightarrow>
                 Exclusive (heap w ! existingSession) \<or> exclusive \<or> \<not> allowSharedAccess (mgr w)
             | None \<Rightarrow> False)
         then (w, Inl ErrPortLocked)
         else
           (case serial_Open env of
              Inl e \<Rightarrow> (w, Inl (ErrWrap ''failed to open port'' (ErrHardware e)))
            | Inr p \<Rightarrow>
               (case (if ReadTimeoutMs config > 0 then open_SetReadTimeout env else None) of
                  Some e \<Rightarrow> (w, Inl (ErrWrap ''failed to set read timeout'' (ErrHardware e)))
                | None \<Rightarrow>
                   let session = \<lparr>ID = uuid_New env, PortName = portName,
                          ClientID = clientID, Exclusive = exclusive, Config = config,
                          Statistics = \<lparr>BytesSent = 0, BytesReceived = 0, Errors = 0,
                             OpenedAt = now_OpenedAt env,
                             LastActivity = now_LastActivity env\<rparr>,
                          port = p, closed = False, readers = []\<rparr>;
                       a = length (heap w)
                   in (w\<lparr>heap := heap w @ [session],
                         mgr := (mgr w)\<lparr>
                           sessions := (sessions (mgr w))(portName \<mapsto> a),
                           sessionsByID := (sessionsByID (mgr w))(uuid_New env \<mapsto> a)\<rparr>\<rparr>,
                       Inr a))))"

text \<open>
  \<open>closeSessionLocked\<close>: \<^verbatim>\<open>close(ch)\<close> panics on a channel that is already
  closed; \<open>hw_close\<close> is what \<^verbatim>\<open>session.port.Close()\<close> returns.
\<close>

definition closeSessionLocked :: "World \<Rightarrow> nat \<Rightarrow> nat option \<Rightarrow> World \<times> error option" where
  "closeSessionLocked w a hw_close =
     (let s = heap w ! a;
          w1 = w\<lparr>heap := (heap w)[a := s\<lparr>closed := True\<rparr>]\<rparr>
      in if \<exists>ch \<in> set (readers s). chan_closed ch
         then (w1, Some (Panic ''close of closed channel''))
         else
           (w\<lparr>heap := (heap w)[a := s\<lparr>closed := True, readers := []\<rparr>],
              mgr := (mgr w)\<lparr>
                sessions := (sessions (mgr w))(PortName s := None),
                sessionsByID := (sessionsByID (mgr w))(ID s := None)\<rparr>\<rparr>,
            map_option ErrHardware hw_close))"

definition ClosePort :: "World \<Rightarrow> string \<Rightarrow> string \<Rightarrow> nat option \<Rightarrow> World \<times> error option" where
  "ClosePort w portName sessionID hw_close =
     (case sessions (mgr w) portName of
        None \<Rightarrow> (w, Some ErrPortNotOpen)
      | Some session \<Rightarrow>
          if ID (heap w ! session) \<noteq> sessionID then (w, Some ErrInvalidSession)
          else closeSessionLocked w session hw_close)"

text \<open>
  \<open>CloseAll\<close>. The loop ranges over the map \<^verbatim>\<open>m.sessions\<close> in an order the
  runtime chooses: \<open>order\<close> lists the port names in that order, each with what
  the driver's \<open>Close\<close> returns for its session. Errors of
  \<open>closeSessionLocked\<close> are dropped; a panic ends the loop.
\<close>

fun CloseAll :: "World \<Rightarrow> (string \<times> nat option) list \<Rightarrow> World \<times> error option" where
  "CloseAll w [] = (w, None)"
| "CloseAll w ((pn, hw_close) # order) =
     (case sessions (mgr w) pn of
        None \<Rightarrow> CloseAll w order
      | Some session \<Rightarrow>
          (case closeSessionLocked w session hw_close of
             (w', err) \<Rightarrow>
               if (case err of Some e \<Rightarrow> is_Panic e | None \<Rightarrow> False) then (w', err)
               else CloseAll w' order))"

definition GetSession :: "World \<Rightarrow> string \<Rightarrow> nat option" where
  "GetSession w portName = sessions (mgr w) portName"

definition GetSessionByID :: "World \<Rightarrow> string \<Rightarrow> nat option" where
  "GetSessionByID w sessionID = sessionsByID (mgr w) sessionID"

definition ValidateSession :: "World \<Rightarrow> string \<Rightarrow> string \<Rightarrow> error + nat" where
  "ValidateSession w portName sessionID =
     (case sessions (mgr w) portName of
        None \<Rightarrow> Inl ErrPortNotOpen
      | Some session \<Rightarrow>
          if ID (heap w ! session) \<noteq> sessionID then Inl ErrInvalidSession
          else if closed (heap w ! session) then Inl ErrPortClosed
          else Inr session)"

text \<open>Assignment through a \<^verbatim>\<open>*Session\<close>: the object at address \<open>a\<close> is replaced.\<close>

definition update_session :: "World \<Rightarrow> nat \<Rightarrow> (Session \<Rightarrow> Session) \<Rightarrow> World" where
  "update_session w a f = w\<lparr>heap := (heap w)[a := f (heap w ! a)]\<rparr>"

text \<open>
  \<open>Write\<close>. The driver's \<^verbatim>\<open>port.Write(data)\<close> returns \<open>port_Write_n\<close> and
  \<open>port_Write_err\<close>; \<^verbatim>\<open>uint64(n)\<close> is \<open>of_int n\<close>, and the addition wraps.
\<close>

record WriteEnv =
  port_Write_n :: int
  port_Write_err :: "nat option"
  now_Write :: nat

definition Write ::
  "World \<Rightarrow> string \<Rightarrow> string \<Rightarrow> byte list \<Rightarrow> WriteEnv \<Rightarrow> World \<times> int \<times> error option" where
  "Write w portName sessionID data env =
     (case ValidateSession w portName sessionID of
        Inl err \<Rightarrow> (w, 0, Some err)
      | Inr session \<Rightarrow>
         (case port_Write_err env of
            Some e \<Rightarrow>
              (update_session w session (\<lambda>s. s\<lparr>Statistics :=
                  (Statistics s)\<lparr>Errors := Errors (Statistics s) + 1\<rparr>\<rparr>),
               port_Write_n env, Some (ErrHardware e))
          | None \<Rightarrow>
              (update_session w session (\<lambda>s. s\<lparr>Statistics :=
                  (Statistics s)\<lparr>BytesSent := BytesSent (Statistics s) + of_int (port_Write_n env),
                                  LastActivity := now_Write env\<rparr>\<rparr>),
               port_Write_n env, None)))"

text \<open>
  \<open>Read\<close>. \<^verbatim>\<open>make([]byte, maxBytes)\<close> panics for a negative length. The driver's
  \<^verbatim>\<open>port.Read(buffer)\<close> stores the bytes \<open>port_Read_data\<close> at the front of the
  buffer and returns their number as \<open>n\<close>, or fails with \<open>port_Read_err\<close>;
  \<^verbatim>\<open>buffer[:n]\<close> panics when \<open>n\<close> exceeds the buffer.
\<close>

record ReadEnv =
  port_Read_data :: "byte list"
  port_Read_err :: "nat option"
  now_Read :: nat

definition Read ::
  "World \<Rightarrow> string \<Rightarrow> string \<Rightarrow> int \<Rightarrow> ReadEnv \<Rightarrow> World \<times> (error + byte list)" where
  "Read w portName sessionID maxBytes env =
     (case ValidateSession w portName sessionID of
        Inl err \<Rightarrow> (w, Inl err)
      | Inr session \<Rightarrow>
         if maxBytes < 0 then (w, Inl (Panic ''makeslice: len out of range''))
         else
           (case port_Read_err env of
              Some e \<Rightarrow>
                (update_session w session (\<lambda>s. s\<lparr>Statistics :=
                    (Statistics s)\<lparr>Errors := Errors (Statistics s) + 1\<rparr>\<rparr>),
                 Inl (ErrHardware e))
            | None \<Rightarrow>
                let n = length (port_Read_data env);
                    w' = update_session w session (\<lambda>s. s\<lparr>Statistics :=
                      (Statistics s)\<lparr>BytesReceived := BytesReceived (Statistics s) + of_nat n,
                                      LastActivity := now_Read env\<rparr>\<rparr>)
                in if int n > maxBytes then (w', Inl (Panic ''slice bounds out of range''))
                   else (w', Inr (port_Read_data env))))"

text \<open>
  \<open>Configure\<close>. \<open>port_SetMode\<close> and \<open>cfg_SetReadTimeout\<close> are the results of the
  two driver calls.
\<close>

record ConfigureEnv =
  port_SetMode :: "nat option"
  cfg_SetReadTimeout :: "nat option"

definition Configure ::
  "World \<Rightarrow> string \<Rightarrow> string \<Rightarrow> PortConfig \<Rightarrow> ConfigureEnv \<Rightarrow> World \<times> error option" where
  "Configure w portName sessionID config env =
     (case ValidateSession w portName sessionID of
        Inl err \<Rightarrow> (w, Some err)
      | Inr session \<Rightarrow>
         (case Validate config of
            Some err \<Rightarrow> (w, Some err)
          | None \<Rightarrow>
             (case port_SetMode env of
                Some e \<Rightarrow> (w, Some (ErrWrap ''failed to configure port'' (ErrHardware e)))
              | None \<Rightarrow>
                 (case (if ReadTimeoutMs config > 0 then cfg_SetReadTimeout env else None) of
                    Some e \<Rightarrow> (w, Some (ErrWrap ''failed to set read timeout'' (ErrHardware e)))
                  | None \<Rightarrow> (update_session w session (\<lambda>s. s\<lparr>Config := config\<rparr>), None)))))"

definition GetStatus :: "World \<Rightarrow> string \<Rightarrow> error + nat" where
  "GetStatus w portName =
     (case sessions (mgr w) portName of
        None \<Rightarrow> Inl ErrPortNotOpen
      | Some session \<Rightarrow> Inr session)"

text \<open>
  \<open>SubscribeToReads\<close> returns the new channel, here its position in the
  session's \<open>readers\<close>.
\<close>

definition SubscribeToReads :: "World \<Rightarrow> string \<Rightarrow> string \<Rightarrow> World \<times> (error + nat)" where
  "SubscribeToReads w portName sessionID =
     (case ValidateSession w portName sessionID of
        Inl err \<Rightarrow> (w, Inl err)
      | Inr session \<Rightarrow>
          (update_session w session (\<lambda>s. s\<lparr>readers := readers s @ [make_chan]\<rparr>),
           Inr (length (readers (heap w ! session)))))"

text \<open>\<open>Flush\<close>; \<open>hw_reset\<close> is the result of \<^verbatim>\<open>ResetInputBuffer\<close>.\<close>

definition Flush :: "World \<Rightarrow> string \<Rightarrow> string \<Rightarrow> nat option \<Rightarrow> World \<times> error option" where
  "Flush w portName sessionID hw_reset =
     (case ValidateSession w portName sessionID of
        Inl err \<Rightarrow> (w, Some err)
      | Inr session \<Rightarrow> (w, map_option ErrHardware hw_reset))"

subsection \<open>Sequences of Manager calls\<close>

text \<open>
  One call of the Manager's interface, with the environment's part of it, and
  the world after a sequence of calls.
\<close>

datatype call =
    CallOpenPort string PortConfig string bool OpenEnv
  | CallClosePort string string "nat option"
  | CallWrite string string "byte list" WriteEnv
  | CallRead string string int ReadEnv
  | CallConfigure string string PortConfig ConfigureEnv
  | CallSubscribeToReads string string
  | CallFlush string string "nat option"
  | CallCloseAll "(string \<times> nat option) list"

fun do_call :: "World \<Rightarrow> call \<Rightarrow> World" where
  "do_call w (CallOpenPort p c cl ex env) = fst (OpenPort w p c cl ex env)"
| "do_call w (CallClosePort p sid hw) = fst (ClosePort w p sid hw)"
| "do_call w (CallWrite p sid d env) = fst (Write w p sid d env)"
| "do_call w (CallRead p sid n env) = fst (Read w p sid n env)"
| "do_call w (CallConfigure p sid c env) = fst (Configure w p sid c env)"
| "do_call w (CallSubscribeToReads p sid) = fst (SubscribeToReads w p sid)"
| "do_call w (CallFlush p sid hw) = fst (Flush w p sid hw)"
| "do_call w (CallCloseAll order) = fst (CloseAll w order)"

fun do_calls :: "World \<Rightarrow> call list \<Rightarrow> World" where
  "do_calls w [] = w"
| "do_calls w (c # cs) = do_calls (do_call w c) cs"

text \<open>The identifiers that \<^verbatim>\<open>uuid.New()\<close> hands out during a sequence of calls.\<close>

fun issued :: "call list \<Rightarrow> string list" where
  "issued [] = []"
| "issued (CallOpenPort p c cl ex env # cs) = uuid_New env # issued cs"
| "issued (_ # cs) = issued cs"

text \<open>
  Consistency of the table by name with the sessions it points to: an entry
  points to a live session object that carries that name and whose reader
  channels are open.
\<close>

definition wf_world :: "World \<Rightarrow> bool" where
  "wf_world w \<longleftrightarrow>
     (\<forall>p a. sessions (mgr w) p = Some a \<longrightarrow>
        a < length (heap w) \<and> PortName (heap w ! a) = p \<and> \<not> closed (heap w ! a)
        \<and> (\<forall>ch \<in> set (readers (heap w ! a)). \<not> chan_closed ch))"

text \<open>Two sessions registered by name never carry the same identifier.\<close>

definition ids_distinct :: "World \<Rightarrow> bool" where
  "ids_distinct w \<longleftrightarrow>
     (\<forall>p q a b. sessions (mgr w) p = Some a \<and> sessions (mgr w) q = Some b
        \<and> ID (heap w ! a) = ID (heap w ! b) \<longrightarrow> p = q)"

text \<open>No session registered by name carries the identifier \<open>sid\<close>.\<close>

definition unknown_id :: "World \<Rightarrow> string \<Rightarrow> bool" where
  "unknown_id w sid \<longleftrightarrow> (\<forall>p a. sessions (mgr w) p = Some a \<longrightarrow> ID (heap w ! a) \<noteq> sid)"

text \<open>Every session registered by name carries an identifier from \<open>U\<close>.\<close>

definition ids_within :: "World \<Rightarrow> string set \<Rightarrow> bool" where
  "ids_within w U \<longleftrightarrow> (\<forall>p a. sessions (mgr w) p = Some a \<longrightarrow> ID (heap w ! a) \<in> U)"

definition registry_inv :: "World \<Rightarrow> string set \<Rightarrow> bool" where
  "registry_inv w U \<longleftrightarrow> wf_world w \<and> ids_distinct w \<and> ids_within w U"

subsection \<open>Concrete worlds\<close>

text \<open>
  An environment in which the driver opens the port as handle 3, and the
  world after one client has opened \<open>COM1\<close> non-exclusively.
\<close>

definition ex_env :: "string \<Rightarrow> OpenEnv" where
  "ex_env sid = \<lparr>serial_Open = Inr 3, open_SetReadTimeout = None, uuid_New = sid,
     now_OpenedAt = 10, now_LastActivity = 11\<rparr>"

definition ex_world :: "bool \<Rightarrow> World" where
  "ex_world shared =
     fst (OpenPort (NewManager shared DefaultConfig) ''COM1'' DefaultConfig ''alice'' False
            (ex_env ''id-1''))"

subsection \<open>The continuous Reader\<close>

text \<open>
  \<open>Sequence\<close> is a \<^verbatim>\<open>uint32\<close>. \<open>Error\<close> is \<open>None\<close> for \<^verbatim>\<open>nil\<close>.
\<close>

record DataEvent =
  Data :: "byte list"
  Timestamp :: nat
  Sequence :: "32 word"
  Error :: "error option"

text \<open>
  The Reader's subscriber channels are shared with the consumers that
  \<open>Subscribe\<close> returned them to, so they live in a store (\<open>chans\<close>, address =
  index) and \<open>subscribers\<close> holds addresses. \<open>stopChan\<close> carries no data: the
  field records whether it has been closed. The \<^verbatim>\<open>manager\<close> pointer of the source
  is the \<open>World\<close> passed to the functions that use it.
\<close>

record Reader =
  portName :: string
  sessionID :: string
  bufferSize :: int
  running :: bool
  stopChan :: bool
  subscribers :: "nat list"

record ReaderWorld =
  rdr :: Reader
  chans :: "DataEvent chan list"

definition NewReader :: "string \<Rightarrow> string \<Rightarrow> int \<Rightarrow> ReaderWorld" where
  "NewReader pn sid bs =
     \<lparr>rdr = \<lparr>portName = pn, sessionID = sid,
              bufferSize = (if bs \<le> 0 then 1024 else bs),
              running = False, stopChan = False, subscribers = []\<rparr>,
      chans = []\<rparr>"

text \<open>
  \<^verbatim>\<open>close(ch)\<close> for each channel of a list, in order; \<open>None\<close> is the panic of
  closing a closed channel.
\<close>

fun close_chans :: "'a chan list \<Rightarrow> nat list \<Rightarrow> 'a chan list option" where
  "close_chans cs [] = Some cs"
| "close_chans cs (c # rest) =
     (if chan_closed (cs ! c) then None
      else close_chans (cs[c := (cs ! c)\<lparr>chan_closed := True\<rparr>]) rest)"

definition Stop :: "ReaderWorld \<Rightarrow> error + ReaderWorld" where
  "Stop rw =
     (if \<not> running (rdr rw) then Inr rw
      else if stopChan (rdr rw) then Inl (Panic ''close of closed channel'')
      else
        (case close_chans (chans rw) (subscribers (rdr rw)) of
           None \<Rightarrow> Inl (Panic ''close of closed channel'')
         | Some cs \<Rightarrow>
             Inr \<lparr>rdr = (rdr rw)\<lparr>running := False, stopChan := True, subscribers := []\<rparr>,
                  chans = cs\<rparr>))"

text \<open>
  \<open>Start\<close>; the last component tells whether the \<open>readLoop\<close> goroutine was
  started.
\<close>

definition Start :: "World \<Rightarrow> ReaderWorld \<Rightarrow> ReaderWorld \<times> error option \<times> bool" where
  "Start w rw =
     (if running (rdr rw) then (rw, None, False)
      else
        (case ValidateSession w (portName (rdr rw)) (sessionID (rdr rw)) of
           Inl err \<Rightarrow> (rw, Some err, False)
         | Inr _ \<Rightarrow> (rw\<lparr>rdr := (rdr rw)\<lparr>running := True\<rparr>\<rparr>, None, True)))"

definition Subscribe :: "ReaderWorld \<Rightarrow> ReaderWorld \<times> nat" where
  "Subscribe rw =
     (rw\<lparr>chans := chans rw @ [make_chan],
         rdr := (rdr rw)\<lparr>subscribers := subscribers (rdr rw) @ [length (chans rw)]\<rparr>\<rparr>,
      length (chans rw))"

definition Unsubscribe :: "ReaderWorld \<Rightarrow> nat \<Rightarrow> error + ReaderWorld" where
  "Unsubscribe rw ch =
     (if ch \<in> set (subscribers (rdr rw)) then
        (if chan_closed (chans rw ! ch) then Inl (Panic ''close of closed channel'')
         else Inr \<lparr>rdr = (rdr rw)\<lparr>subscribers := remove1 ch (subscribers (rdr rw))\<rparr>,
                   chans = (chans rw)[ch := (chans rw ! ch)\<lparr>chan_closed := True\<rparr>]\<rparr>)
      else Inr rw)"

text \<open>
  The non-blocking send of \<open>broadcast\<close> to each channel of a list, in order:
  sending on a closed channel panics (\<open>None\<close>), a channel with room takes the
  event, a full one drops it.
\<close>

fun send_all :: "'a chan list \<Rightarrow> nat list \<Rightarrow> 'a \<Rightarrow> 'a chan list option" where
  "send_all cs [] ev = Some cs"
| "send_all cs (c # rest) ev =
     (if chan_closed (cs ! c) then None
      else if length (chan_buf (cs ! c)) < chan_cap
        then send_all (cs[c := (cs ! c)\<lparr>chan_buf := chan_buf (cs ! c) @ [ev]\<rparr>]) rest ev
      else send_all cs rest ev)"

definition broadcast :: "ReaderWorld \<Rightarrow> DataEvent \<Rightarrow> error + ReaderWorld" where
  "broadcast rw event =
     (case send_all (chans rw) (subscribers (rdr rw)) event of
        None \<Rightarrow> Inl (Panic ''send on closed channel'')
      | Some cs \<Rightarrow> Inr (rw\<lparr>chans := cs\<rparr>))"

definition IsRunning :: "ReaderWorld \<Rightarrow> bool" where
  "IsRunning rw = running (rdr rw)"

text \<open>
  The state of a running \<open>readLoop\<close>: the Manager's world, the Reader, and the
  local variable \<open>sequence\<close>.
\<close>

record LoopState =
  world :: World
  rw :: ReaderWorld
  sequence :: "32 word"

text \<open>
  What the environment contributes to one pass through the loop: whether
  \<^verbatim>\<open>ctx.Done()\<close> is ready, which case the \<^verbatim>\<open>select\<close> takes when both
  \<^verbatim>\<open>ctx.Done()\<close> and \<^verbatim>\<open>stopChan\<close> are ready, the driver's part of the \<open>Read\<close>,
  and the clock for the event's timestamp.
\<close>

record IterEnv =
  ctx_Done :: bool
  select_ctx_first :: bool
  read_env :: ReadEnv
  now_Timestamp :: nat

datatype flow = Continue | Return

text \<open>
  The second half of a pass, from the construction of the event on: \<open>w'\<close>,
  \<open>data\<close> and \<open>err\<close> are what \<open>Read\<close> left and returned. The result is the new
  state, whether the loop goes on or \<open>readLoop\<close> returns, and the milliseconds
  spent in \<^verbatim>\<open>time.Sleep\<close>; a panic is \<open>Inl\<close>.
\<close>

definition readLoop_emit ::
  "LoopState \<Rightarrow> World \<Rightarrow> byte list \<Rightarrow> error option \<Rightarrow> nat \<Rightarrow> error + (LoopState \<times> flow \<times> nat)" where
  "readLoop_emit st w' data err now =
     (let event = \<lparr>Data = data, Timestamp = now, Sequence = sequence st + 1, Error = err\<rparr>
      in case broadcast (rw st) event of
           Inl p \<Rightarrow> Inl p
         | Inr rw1 \<Rightarrow>
            (case err of
               None \<Rightarrow> Inr (\<lparr>world = w', rw = rw1, sequence = sequence st + 1\<rparr>, Continue, 0)
             | Some e \<Rightarrow>
                 if e = ErrPortClosed \<or> e = ErrInvalidSession then
                   (case Stop rw1 of
                      Inl p \<Rightarrow> Inl p
                    | Inr rw2 \<Rightarrow>
                        Inr (\<lparr>world = w', rw = rw2, sequence = sequence st + 1\<rparr>, Return, 0))
                 else Inr (\<lparr>world = w', rw = rw1, sequence = sequence st + 1\<rparr>, Continue, 10)))"

text \<open>
  One pass through \<^verbatim>\<open>for r.running.Load() { select { ... } }\<close>, starting at the
  loop condition.
\<close>

definition readLoop_iter :: "LoopState \<Rightarrow> IterEnv \<Rightarrow> error + (LoopState \<times> flow \<times> nat)" where
  "readLoop_iter st env =
     (let r = rdr (rw st) in
      if \<not> running r then Inr (st, Return, 0)
      else if ctx_Done env \<and> (\<not> stopChan r \<or> select_ctx_first env) then
        (case Stop (rw st) of
           Inl p \<Rightarrow> Inl p
         | Inr rw' \<Rightarrow> Inr (st\<lparr>rw := rw'\<rparr>, Return, 0))
      else if stopChan r then Inr (st, Return, 0)
      else
        (case Read (world st) (portName r) (sessionID r) (bufferSize r) (read_env env) of
           (w', Inr data) \<Rightarrow>
             if length data = 0 then Inr (st\<lparr>world := w'\<rparr>, Continue, 0)
             else readLoop_emit st w' data None (now_Timestamp env)
         | (w', Inl err) \<Rightarrow>
             if is_Panic err then Inl err
             else readLoop_emit st w' [] (Some err) (now_Timestamp env)))"

text \<open>
  \<open>readLoop\<close> on its own, fed with the environment of its successive passes.
  The loop has no bound: when the given passes are used up and the loop has not
  returned, the result is \<open>Continue\<close>.
\<close>

fun readLoop :: "LoopState \<Rightarrow> IterEnv list \<Rightarrow> error + (LoopState \<times> flow)" where
  "readLoop st [] = Inr (st, Continue)"
| "readLoop st (env # envs) =
     (case readLoop_iter st env of
        Inl p \<Rightarrow> Inl p
      | Inr (st', Return, _) \<Rightarrow> Inr (st', Return)
      | Inr (st', Continue, _) \<Rightarrow> readLoop st' envs)"

text \<open>
  A run of the Reader next to its clients: passes of the loop interleaved with
  a consumer receiving from its channel, calls of \<open>Subscribe\<close>, \<open>Unsubscribe\<close>
  and \<open>Stop\<close>, and calls of the Manager. \<open>alive\<close> tells whether \<open>readLoop\<close> has
  not returned yet; \<open>received\<close> logs, oldest first, each event a consumer took
  and the channel it took it from.
\<close>

datatype action =
    Iterate IterEnv
  | Receive nat
  | DoSubscribe
  | DoUnsubscribe nat
  | DoStop
  | DoCall call

record Sys =
  loop :: LoopState
  alive :: bool
  received :: "(nat \<times> DataEvent) list"

definition with_rw :: "Sys \<Rightarrow> ReaderWorld \<Rightarrow> Sys" where
  "with_rw s rw' = s\<lparr>loop := (loop s)\<lparr>rw := rw'\<rparr>\<rparr>"

fun step :: "Sys \<Rightarrow> action \<Rightarrow> error + Sys" where
  "step s (Iterate env) =
     (if \<not> alive s then Inr s
      else
        (case readLoop_iter (loop s) env of
           Inl p \<Rightarrow> Inl p
         | Inr (st', f, _) \<Rightarrow> Inr (s\<lparr>loop := st', alive := (f = Continue)\<rparr>)))"
| "step s (Receive c) =
     (let cs = chans (rw (loop s)) in
      if c < length cs then
        (case chan_buf (cs ! c) of
           [] \<Rightarrow> Inr s
         | ev # rest \<Rightarrow>
             Inr ((with_rw s ((rw (loop s))\<lparr>chans := cs[c := (cs ! c)\<lparr>chan_buf := rest\<rparr>]\<rparr>))
                    \<lparr>received := received s @ [(c, ev)]\<rparr>))
      else Inr s)"
| "step s DoSubscribe = Inr (with_rw s (fst (Subscribe (rw (loop s)))))"
| "step s (DoUnsubscribe c) =
     (case Unsubscribe (rw (loop s)) c of
        Inl p \<Rightarrow> Inl p
      | Inr rw' \<Rightarrow> Inr (with_rw s rw'))"
| "step s DoStop =
     (case Stop (rw (loop s)) of
        Inl p \<Rightarrow> Inl p
      | Inr rw' \<Rightarrow> Inr (with_rw s rw'))"
| "step s (DoCall c) = Inr (s\<lparr>loop := (loop s)\<lparr>world := do_call (world (loop s)) c\<rparr>\<rparr>)"

fun run :: "Sys \<Rightarrow> action list \<Rightarrow> error + Sys" where
  "run s [] = Inr s"
| "run s (a # as) = (case step s a of Inl p \<Rightarrow> Inl p | Inr s' \<Rightarrow> run s' as)"

text \<open>
  The system right after \<open>NewReader\<close> and a successful \<open>Start\<close>: the loop is
  alive with \<open>sequence\<close> 0, nobody has subscribed.
\<close>

definition started :: "World \<Rightarrow> string \<Rightarrow> string \<Rightarrow> int \<Rightarrow> Sys" where
  "started w pn sid bs =
     \<lparr>loop = \<lparr>world = w, rw = fst (Start w (NewReader pn sid bs)), sequence = 0\<rparr>,
      alive = True, received = []\<rparr>"

text \<open>The events a consumer has received from channel \<open>c\<close>, oldest first.\<close>

definition received_on :: "Sys \<Rightarrow> nat \<Rightarrow> DataEvent list" where
  "received_on s c = map snd (filter (\<lambda>x. fst x = c) (received s))"

definition iterations :: "action list \<Rightarrow> nat" where
  "iterations as = length (filter (\<lambda>a. case a of Iterate _ \<Rightarrow> True | _ \<Rightarrow> False) as)"

text \<open>
  Consistency of a Reader: its subscriber list has no duplicates and holds
  existing, open channels, and a running Reader's \<open>stopChan\<close> is open.
\<close>

definition wf_reader :: "ReaderWorld \<Rightarrow> bool" where
  "wf_reader x \<longleftrightarrow>
     distinct (subscribers (rdr x))
     \<and> (\<forall>c \<in> set (subscribers (rdr x)). c < length (chans x) \<and> \<not> chan_closed (chans x ! c))
     \<and> (running (rdr x) \<longrightarrow> \<not> stopChan (rdr x))"

subsection \<open>Concrete Reader states\<close>

text \<open>
  The world in which \<open>COM1\<close> was closed and opened again by another client,
  which gives the port a new session identifier; a started Reader for the
  first session with one subscriber (channel 0); and the environment of a pass
  in which nothing is cancelled.
\<close>

definition ex_reopened :: World where
  "ex_reopened =
     do_calls (ex_world False)
       [CallClosePort ''COM1'' ''id-1'' None,
        CallOpenPort ''COM1'' DefaultConfig ''bob'' True (ex_env ''id-2'')]"

definition ex_reader :: ReaderWorld where
  "ex_reader = fst (Subscribe (fst (Start (ex_world False) (NewReader ''COM1'' ''id-1'' 0))))"

definition ex_iter_env :: "ReadEnv \<Rightarrow> IterEnv" where
  "ex_iter_env renv =
     \<lparr>ctx_Done = False, select_ctx_first = False, read_env = renv, now_Timestamp = 50\<rparr>"

text \<open>
  What a consumer of channel \<open>c\<close> observes in the end: the events it has already
  received, followed by the events still buffered in the channel.
\<close>

definition observed :: "Sys \<Rightarrow> nat \<Rightarrow> DataEvent list" where
  "observed s c = received_on s c @ chan_buf (chans (rw (loop s)) ! c)"

text \<open>
  The number of events the loop creates in a run from \<open>s\<close>: the steps that
  change \<open>sequence\<close>. The loop changes \<open>sequence\<close> only by the
  \<^verbatim>\<open>atomic.AddUint32(&sequence, 1)\<close> with which it numbers a new event; a pass
  that is skipped (a successful empty read), cancelled or stopped leaves it
  alone.
\<close>

fun emitted :: "Sys \<Rightarrow> action list \<Rightarrow> nat" where
  "emitted s [] = 0"
| "emitted s (a # as) =
     (case step s a of
        Inl p \<Rightarrow> 0
      | Inr s' \<Rightarrow>
          (if sequence (loop s') = sequence (loop s) then 0 else 1) + emitted s' as)"

text \<open>
  What holds of a run in which the loop has created \<open>k\<close> events so far: the
  Reader is consistent, \<open>sequence\<close> is \<open>k\<close> modulo \<open>2^32\<close>, and what is observed
  on any channel are events created at increasing positions \<open>1 \<le> i \<le> k\<close>, each
  numbered with its position modulo \<open>2^32\<close>.
\<close>

definition seq_inv :: "Sys \<Rightarrow> nat \<Rightarrow> bool" where
  "seq_inv s k \<longleftrightarrow>
     wf_reader (rw (loop s))
     \<and> sequence (loop s) = of_nat k
     \<and> (\<forall>x \<in> set (received s). fst x < length (chans (rw (loop s))))
     \<and> (\<forall>c < length (chans (rw (loop s))).
          \<exists>ps. sorted_wrt (<) ps \<and> (\<forall>i \<in> set ps. 0 < i \<and> i \<le> k)
             \<and> map Sequence (observed s c) = map of_nat ps)"

text \<open>
  A long run: the session of \<open>COM1\<close> is closed under the running Reader, a
  client subscribes, and then \<open>n\<close> times the loop makes a pass (each \<open>Read\<close>
  fails with \<open>ErrPortNotOpen\<close>, which does not stop the loop) and the client
  receives the event. \<open>long_run_sequences n\<close> lists the sequence numbers the
  client has received, as natural numbers.
\<close>

definition long_run :: "nat \<Rightarrow> action list" where
  "long_run n =
     [DoCall (CallClosePort ''COM1'' ''id-1'' None), DoSubscribe]
     @ concat (replicate n
         [Iterate (ex_iter_env \<lparr>port_Read_data = [], port_Read_err = None, now_Read = 40\<rparr>),
          Receive 0])"

definition long_run_sequences :: "nat \<Rightarrow> nat list" where
  "long_run_sequences n =
     (case run (started (ex_world False) ''COM1'' ''id-1'' 0) (long_run n) of
        Inl _ \<Rightarrow> []
      | Inr s \<Rightarrow> map (\<lambda>e. unat (Sequence e)) (received_on s 0))"

text \<open>
  An idle run: \<open>n\<close> passes of the loop on the open session of \<open>COM1\<close>, each
  \<open>Read\<close> timing out with no data.
\<close>

definition idle_run :: "nat \<Rightarrow> action list" where
  "idle_run n =
     replicate n
       (Iterate (ex_iter_env \<lparr>port_Read_data = [], port_Read_err = None, now_Read = 40\<rparr>))"

subsection \<open>The LineReader\<close>

text \<open>
  The \<^verbatim>\<open>reader\<close> pointer of the source is not used by \<open>ReadLine\<close> and is left
  out. A \<^verbatim>\<open>nil\<close> slice is the empty list.
\<close>

record LineReader =
  delimiter :: byte
  buffer :: "byte list"
  maxLine :: int

definition NewLineReader :: "byte \<Rightarrow> int \<Rightarrow> LineReader" where
  "NewLineReader d maxLineSize =
     \<lparr>delimiter = d, buffer = [],
      maxLine = (if maxLineSize \<le> 0 then 4096 else maxLineSize)\<rparr>"

text \<open>
  The loop of \<open>ReadLine\<close> over what the channel holds: whether it is closed and
  the events buffered in it, oldest first. Each turn first looks for the
  delimiter in the buffer (\<open>takeWhile\<close> is \<^verbatim>\<open>buffer[:i]\<close> for the first index
  \<open>i\<close> of the delimiter, \<open>tl (dropWhile ...)\<close> is \<^verbatim>\<open>buffer[i+1:]\<close>), then
  receives. The result is the LineReader, the events left in the channel, and
  what \<open>ReadLine\<close> returns; \<open>None\<close> stands for a receive that blocks on an
  empty, open channel.
\<close>

fun ReadLine_loop ::
  "LineReader \<Rightarrow> bool \<Rightarrow> DataEvent list \<Rightarrow> LineReader \<times> DataEvent list \<times> (error + byte list) option" where
  "ReadLine_loop lr is_closed evs =
     (if delimiter lr \<in> set (buffer lr) then
        (lr\<lparr>buffer := tl (dropWhile (\<lambda>b. b \<noteq> delimiter lr) (buffer lr))\<rparr>, evs,
         Some (Inr (takeWhile (\<lambda>b. b \<noteq> delimiter lr) (buffer lr))))
      else
        (case evs of
           [] \<Rightarrow>
             if is_closed then
               (if length (buffer lr) > 0 then (lr\<lparr>buffer := []\<rparr>, [], Some (Inr (buffer lr)))
                else (lr, [], Some (Inl ErrPortClosed)))
             else (lr, [], None)
         | event # rest \<Rightarrow>
             (case Error event of
                Some e \<Rightarrow> (lr, rest, Some (Inl e))
              | None \<Rightarrow>
                  if int (length (buffer lr @ Data event)) > maxLine lr then
                    (lr\<lparr>buffer := []\<rparr>, rest, Some (Inr (buffer lr @ Data event)))
                  else ReadLine_loop (lr\<lparr>buffer := buffer lr @ Data event\<rparr>) is_closed rest)))"

definition ReadLine ::
  "LineReader \<Rightarrow> DataEvent chan \<Rightarrow> LineReader \<times> DataEvent chan \<times> (error + byte list) option" where
  "ReadLine lr dataChan =
     (case ReadLine_loop lr (chan_closed dataChan) (chan_buf dataChan) of
        (lr', rest, res) \<Rightarrow> (lr', dataChan\<lparr>chan_buf := rest\<rparr>, res))"

text \<open>A closed channel with nothing left in it.\<close>

definition closed_chan :: "DataEvent chan" where
  "closed_chan = \<lparr>chan_buf = [], chan_closed = True\<rparr>"

text \<open>
  A LineReader with delimiter 10 (line feed) after its first \<open>ReadLine\<close>, on a
  channel that held one event with the bytes \<^verbatim>\<open>"a\nb\nc"\<close>: the call returned
  \<^verbatim>\<open>"a"\<close> and the LineReader still holds \<^verbatim>\<open>"b\nc"\<close>.
\<close>

definition ex_line_reader :: LineReader where
  "ex_line_reader =
     fst (ReadLine (NewLineReader 10 0)
            \<lparr>chan_buf = [\<lparr>Data = [97, 10, 98, 10, 99], Timestamp = 1, Sequence = 1,
                          Error = None\<rparr>],
             chan_closed = False\<rparr>)"

subsection \<open>The Scanner\<close>

datatype PortType =
  PortTypeUnknown | PortTypeUSB | PortTypeNative | PortTypeBluetooth | PortTypeVirtual

fun PortType_String :: "PortType \<Rightarrow> string" where
  "PortType_String PortTypeUSB = ''USB''"
| "PortType_String PortTypeNative = ''Native''"
| "PortType_String PortTypeBluetooth = ''Bluetooth''"
| "PortType_String PortTypeVirtual = ''Virtual''"
| "PortType_String PortTypeUnknown = ''Unknown''"

record PortInfo =
  Name :: string
  Description :: string
  HardwareID :: string
  Manufacturer :: string
  Product :: string
  SerialNumber :: string
  VID :: string
  PID :: string
  PortType :: PortType
  IsOpen :: bool
  LockedBy :: string

text \<open>
  \<^verbatim>\<open>enumerator.PortDetails\<close> of the serial library, as far as the Scanner reads
  it.
\<close>

record PortDetails =
  pd_Name :: string
  pd_IsUSB :: bool
  pd_VID :: string
  pd_PID :: string
  pd_SerialNumber :: string
  pd_Product :: string

text \<open>
  What the Scanner takes from the platform and the standard library: regular
  expression matching (pattern, then subject), \<^verbatim>\<open>runtime.GOOS\<close>, and
  \<^verbatim>\<open>sort.Slice\<close> with its \<^verbatim>\<open>less\<close> function.
\<close>

record Platform =
  regexp_MatchString :: "string \<Rightarrow> string \<Rightarrow> bool"
  runtime_GOOS :: string
  sort_Slice :: "(PortInfo \<Rightarrow> PortInfo \<Rightarrow> bool) \<Rightarrow> PortInfo list \<Rightarrow> PortInfo list"

text \<open>
  \<open>excludePatterns\<close> holds the compiled expressions as their patterns.
  \<open>manager\<close> tells whether the \<^verbatim>\<open>*Manager\<close> is non-nil; the Manager it points
  to is the \<open>World\<close> passed to \<open>Scan\<close>.
\<close>

record Scanner =
  excludePatterns :: "string list"
  cachedPorts :: "PortInfo list"
  manager :: bool

definition isExcluded :: "Platform \<Rightarrow> Scanner \<Rightarrow> string \<Rightarrow> bool" where
  "isExcluded pf s name \<longleftrightarrow> (\<exists>pattern \<in> set (excludePatterns s). regexp_MatchString pf pattern name)"

definition detectPortType :: "Platform \<Rightarrow> PortDetails \<Rightarrow> PortType" where
  "detectPortType pf prt =
     (if pd_IsUSB prt then PortTypeUSB
      else if runtime_GOOS pf = ''windows''
              \<and> regexp_MatchString pf ''(?i)bluetooth|bth'' (pd_Name prt)
        then PortTypeBluetooth
      else if runtime_GOOS pf = ''linux''
              \<and> regexp_MatchString pf ''/dev/rfcomm'' (pd_Name prt)
        then PortTypeBluetooth
      else if runtime_GOOS pf = ''darwin''
              \<and> regexp_MatchString pf ''/dev/.*Bluetooth'' (pd_Name prt)
        then PortTypeBluetooth
      else if runtime_GOOS pf = ''linux''
              \<and> regexp_MatchString pf ''/dev/pts/|/dev/pty'' (pd_Name prt)
        then PortTypeVirtual
      else PortTypeNative)"

definition buildDescription :: "PortDetails \<Rightarrow> string" where
  "buildDescription prt =
     (if pd_Product prt \<noteq> [] then pd_Product prt
      else if pd_IsUSB prt then ''USB Serial Device''
      else ''Serial Port'')"

text \<open>
  The \<open>PortInfo\<close> that the body of the loop in \<open>Scan\<close> builds for one port that
  is not excluded. The hardware identifier is \<^verbatim>\<open>"USB\\VID_" + VID + "&PID_" + PID\<close>
  (character 92 is the backslash).
\<close>

definition scan_port :: "Platform \<Rightarrow> Scanner \<Rightarrow> World \<Rightarrow> PortDetails \<Rightarrow> PortInfo" where
  "scan_port pf s w prt =
     (let session = (if manager s then GetSession w (pd_Name prt) else None)
      in \<lparr>Name = pd_Name prt,
          Description = buildDescription prt,
          HardwareID =
            (if pd_VID prt \<noteq> [] \<and> pd_PID prt \<noteq> []
             then ''USB'' @ [char_of (92 :: nat)] @ ''VID_'' @ pd_VID prt @ ''&PID_'' @ pd_PID prt
             else []),
          Manufacturer = [],
          Product = pd_Product prt,
          SerialNumber = pd_SerialNumber prt,
          VID = pd_VID prt,
          PID = pd_PID prt,
          PortType = detectPortType pf prt,
          IsOpen = (session \<noteq> None),
          LockedBy = (case session of Some a \<Rightarrow> ClientID (heap w ! a) | None \<Rightarrow> [])\<rparr>)"

text \<open>
  \<open>Scan\<close>; \<open>enum\<close> is what \<^verbatim>\<open>enumerator.GetDetailedPortsList()\<close> returns, an error
  code or the ports.
\<close>

definition Scan ::
  "Platform \<Rightarrow> Scanner \<Rightarrow> World \<Rightarrow> nat + PortDetails list \<Rightarrow> Scanner \<times> (error + PortInfo list)" where
  "Scan pf s w enum =
     (case enum of
        Inl e \<Rightarrow> (s, Inl (ErrHardware e))
      | Inr ports \<Rightarrow>
          let result = map (scan_port pf s w)
                         (filter (\<lambda>prt. \<not> isExcluded pf s (pd_Name prt)) ports);
              sorted_result = sort_Slice pf (\<lambda>a b. Name a < Name b) result
          in (s\<lparr>cachedPorts := sorted_result\<rparr>, Inr sorted_result))"

definition GetCached :: "Scanner \<Rightarrow> PortInfo list" where
  "GetCached s = cachedPorts s"

definition portsEqual :: "PortInfo list \<Rightarrow> PortInfo list \<Rightarrow> bool" where
  "portsEqual a b \<longleftrightarrow>
     (if length a \<noteq> length b then False
      else list_all (\<lambda>(x, y). \<not> (Name x \<noteq> Name y \<or> IsOpen x \<noteq> IsOpen y)) (zip a b))"

text \<open>
  What the goroutine of \<open>WatchPorts\<close> meets in its \<^verbatim>\<open>select\<close>: a tick of the
  ticker (with the Manager's world and the enumerator's answer at that moment)
  or the closed \<open>stop\<close> channel. What it does is recorded as a trace of calls of
  \<open>Scan\<close> and of the callback.
\<close>

datatype watch_event = Tick World "nat + PortDetails list" | StopClosed

datatype watch_trace = Scanned | Callback "PortInfo list"

fun watch_loop ::
  "Platform \<Rightarrow> Scanner \<Rightarrow> PortInfo list \<Rightarrow> watch_event list \<Rightarrow> Scanner \<times> watch_trace list" where
  "watch_loop pf s lastPorts [] = (s, [])"
| "watch_loop pf s lastPorts (StopClosed # evs) = (s, [])"
| "watch_loop pf s lastPorts (Tick w enum # evs) =
     (case Scan pf s w enum of
        (s', Inl err) \<Rightarrow>
          (case watch_loop pf s' lastPorts evs of (s'', tr) \<Rightarrow> (s'', Scanned # tr))
      | (s', Inr ports) \<Rightarrow>
          if \<not> portsEqual lastPorts ports then
            (case watch_loop pf s' ports evs of
               (s'', tr) \<Rightarrow> (s'', Scanned # Callback ports # tr))
          else
            (case watch_loop pf s' lastPorts evs of (s'', tr) \<Rightarrow> (s'', Scanned # tr)))"

text \<open>
  \<open>WatchPorts\<close>: the Scanner and the trace after the goroutine, if one was
  started, has met the given events. The returned \<open>stop\<close> channel is the one
  whose closing is the event \<open>StopClosed\<close>.
\<close>

definition WatchPorts ::
  "Platform \<Rightarrow> Scanner \<Rightarrow> int \<Rightarrow> watch_event list \<Rightarrow> Scanner \<times> watch_trace list" where
  "WatchPorts pf s interval evs =
     (if interval \<le> 0 then (s, [])
      else watch_loop pf s [] evs)"

text \<open>
  The contract of \<^verbatim>\<open>sort.Slice\<close> for the order the Scanner sorts by: the result
  is a rearrangement of the slice in which no element's name is greater than
  the name of a later element. The sort need not be stable.
\<close>

definition sorts_by_name :: "Platform \<Rightarrow> bool" where
  "sorts_by_name pf \<longleftrightarrow>
     (\<forall>xs. mset (sort_Slice pf (\<lambda>a b. Name a < Name b) xs) = mset xs
        \<and> sorted_wrt (\<lambda>a b. \<not> Name b < Name a) (sort_Slice pf (\<lambda>a b. Name a < Name b) xs))"

text \<open>
  A platform for examples: Linux, a matcher that tests whether the pattern
  is a prefix of the subject, and insertion sort.
\<close>

fun insert_by :: "('a \<Rightarrow> 'a \<Rightarrow> bool) \<Rightarrow> 'a \<Rightarrow> 'a list \<Rightarrow> 'a list" where
  "insert_by lt x [] = [x]"
| "insert_by lt x (y # ys) = (if lt y x then y # insert_by lt x ys else x # y # ys)"

fun sort_by :: "('a \<Rightarrow> 'a \<Rightarrow> bool) \<Rightarrow> 'a list \<Rightarrow> 'a list" where
  "sort_by lt [] = []"
| "sort_by lt (x # xs) = insert_by lt x (sort_by lt xs)"

definition ex_platform :: Platform where
  "ex_platform =
     \<lparr>regexp_MatchString = (\<lambda>pattern subject. take (length pattern) subject = pattern),
      runtime_GOOS = ''linux'',
      sort_Slice = sort_by\<rparr>"

definition ex_scanner :: Scanner where
  "ex_scanner = \<lparr>excludePatterns = [''/dev/ttyS''], cachedPorts = [], manager = True\<rparr>"

definition ex_port :: "string \<Rightarrow> PortDetails" where
  "ex_port name =
     \<lparr>pd_Name = name, pd_IsUSB = False, pd_VID = [], pd_PID = [],
      pd_SerialNumber = [], pd_Product = []\<rparr>"

section \<open>Properties of the session Manager\<close>

subsection \<open>The registry stays consistent\<close>

lemma wf_world_NewManager: "wf_world (NewManager sh d)"
  by (simp add: wf_world_def NewManager_def)

lemma ids_distinct_NewManager: "ids_distinct (NewManager sh d)"
  by (simp add: ids_distinct_def NewManager_def)

lemma wf_worldD:
  assumes "wf_world w" and "sessions (mgr w) p = Some a"
  shows "a < length (heap w)" and "PortName (heap w ! a) = p" and "\<not> closed (heap w ! a)"
    and "ch \<in> set (readers (heap w ! a)) \<Longrightarrow> \<not> chan_closed ch"
  using assms unfolding wf_world_def by blast+

lemma wf_worldI:
  assumes "\<And>p a. sessions (mgr w) p = Some a \<Longrightarrow>
     a < length (heap w) \<and> PortName (heap w ! a) = p \<and> \<not> closed (heap w ! a)
        \<and> (\<forall>ch \<in> set (readers (heap w ! a)). \<not> chan_closed ch)"
  shows "wf_world w"
  using assms unfolding wf_world_def by blast

lemma mgr_update_session [simp]: "mgr (update_session w a f) = mgr w"
  by (simp add: update_session_def)

lemma length_heap_update_session [simp]: "length (heap (update_session w a f)) = length (heap w)"
  by (simp add: update_session_def)

lemma heap_update_session:
  "b < length (heap w) \<Longrightarrow> heap (update_session w a f) ! b = (if b = a then f (heap w ! a) else heap w ! b)"
  by (simp add: update_session_def)

lemma ValidateSession_Inr:
  "ValidateSession w p sid = Inr a \<Longrightarrow> sessions (mgr w) p = Some a \<and> ID (heap w ! a) = sid \<and> \<not> closed (heap w ! a)"
  by (auto simp: ValidateSession_def split: option.splits if_splits)

lemma wf_world_update_session:
  assumes wf: "wf_world w"
    and pn: "\<And>s. PortName (f s) = PortName s"
    and cl: "\<And>s. closed (f s) = closed s"
    and rd: "\<And>s ch. ch \<in> set (readers (f s)) \<Longrightarrow> ch \<in> set (readers s) \<or> \<not> chan_closed ch"
  shows "wf_world (update_session w a f)"
proof (rule wf_worldI)
  fix p b
  assume "sessions (mgr (update_session w a f)) p = Some b"
  then have b: "sessions (mgr w) p = Some b" by simp
  note d = wf_worldD [OF wf b]
  show "b < length (heap (update_session w a f)) \<and>
        PortName (heap (update_session w a f) ! b) = p \<and>
        \<not> closed (heap (update_session w a f) ! b) \<and>
        (\<forall>ch \<in> set (readers (heap (update_session w a f) ! b)). \<not> chan_closed ch)"
    using d rd by (auto simp: heap_update_session pn cl)
qed

lemma wf_world_OpenPort:
  assumes wf: "wf_world w"
  shows "wf_world (fst (OpenPort w p c cl ex env))"
proof (cases "\<exists>r. OpenPort w p c cl ex env = (w, r)")
  case True
  then show ?thesis using wf by auto
next
  case False
  then obtain h where
    eq: "fst (OpenPort w p c cl ex env) =
      w\<lparr>heap := heap w @ [\<lparr>ID = uuid_New env, PortName = p, ClientID = cl, Exclusive = ex,
            Config = c, Statistics = \<lparr>BytesSent = 0, BytesReceived = 0, Errors = 0,
               OpenedAt = now_OpenedAt env, LastActivity = now_LastActivity env\<rparr>,
            port = h, closed = False, readers = []\<rparr>],
         mgr := (mgr w)\<lparr>sessions := (sessions (mgr w))(p \<mapsto> length (heap w)),
           sessionsByID := (sessionsByID (mgr w))(uuid_New env \<mapsto> length (heap w))\<rparr>\<rparr>"
    by (auto simp: OpenPort_def Let_def split: option.splits sum.splits if_splits)
  show ?thesis
    unfolding eq
  proof (rule wf_worldI, goal_cases)
    case (1 q a)
    show ?case
    proof (cases "q = p")
      case True
      with 1 have "a = length (heap w)" by simp
      then show ?thesis using True by simp
    next
      case False
      with 1 have "sessions (mgr w) q = Some a" by simp
      from wf_worldD [OF wf this] show ?thesis by (simp add: nth_append)
    qed
  qed
qed

lemma wf_world_ClosePort:
  assumes wf: "wf_world w"
  shows "wf_world (fst (ClosePort w p sid hw))"
proof (cases "sessions (mgr w) p")
  case None
  then show ?thesis using wf by (simp add: ClosePort_def)
next
  case (Some a)
  note d = wf_worldD [OF wf Some]
  show ?thesis
  proof (cases "ID (heap w ! a) = sid")
    case False
    then show ?thesis using wf Some by (simp add: ClosePort_def)
  next
    case True
    have eq: "fst (ClosePort w p sid hw) =
       w\<lparr>heap := (heap w)[a := (heap w ! a)\<lparr>closed := True, readers := []\<rparr>],
         mgr := (mgr w)\<lparr>sessions := (sessions (mgr w))(p := None),
            sessionsByID := (sessionsByID (mgr w))(sid := None)\<rparr>\<rparr>"
      using Some True d by (auto simp: ClosePort_def closeSessionLocked_def Let_def)
    show ?thesis unfolding eq
    proof (rule wf_worldI, goal_cases)
      case (1 q b)
      then have q: "q \<noteq> p" and b: "sessions (mgr w) q = Some b" by (auto split: if_splits)
      note e = wf_worldD [OF wf b]
      from e(2) d(2) q have "b \<noteq> a" by auto
      with e show ?case by (simp)
    qed
  qed
qed

lemma closeSessionLocked_ClosePort:
  "sessions (mgr w) p = Some a \<Longrightarrow>
     closeSessionLocked w a hw = ClosePort w p (ID (heap w ! a)) hw"
  by (simp add: ClosePort_def)

lemma CloseAll_preserves:
  assumes step: "\<And>w p sid hw. wf_world w \<Longrightarrow> P w \<Longrightarrow> P (fst (ClosePort w p sid hw))"
  shows "wf_world w \<Longrightarrow> P w \<Longrightarrow>
           wf_world (fst (CloseAll w order)) \<and> P (fst (CloseAll w order))"
proof (induction order arbitrary: w)
  case Nil
  then show ?case by simp
next
  case (Cons x order)
  obtain p hw where x: "x = (p, hw)" by (cases x)
  show ?case
  proof (cases "sessions (mgr w) p")
    case None
    with Cons x show ?thesis by simp
  next
    case (Some a)
    obtain w' e where cp: "ClosePort w p (ID (heap w ! a)) hw = (w', e)"
      by (cases "ClosePort w p (ID (heap w ! a)) hw")
    then have c: "closeSessionLocked w a hw = (w', e)"
      by (simp add: closeSessionLocked_ClosePort [OF Some])
    have wf': "wf_world w'" using wf_world_ClosePort [OF Cons.prems(1), of p "ID (heap w ! a)" hw] cp
      by simp
    have P': "P w'" using step [OF Cons.prems, of p "ID (heap w ! a)" hw] cp by simp
    from Cons.IH [OF wf' P'] wf' P' show ?thesis
      by (simp add: x Some c)
  qed
qed

lemma wf_world_do_call:
  assumes "wf_world w"
  shows "wf_world (do_call w c)"
proof (cases c)
  case (CallOpenPort p cfg cl ex env)
  then show ?thesis using assms by (simp add: wf_world_OpenPort)
next
  case (CallClosePort p sid hw)
  then show ?thesis using assms by (simp add: wf_world_ClosePort)
next
  case (CallWrite p sid d env)
  then show ?thesis using assms
    by (auto simp: Write_def intro!: wf_world_update_session split: sum.splits option.splits)
next
  case (CallRead p sid n env)
  then show ?thesis using assms
    by (auto simp: Read_def Let_def intro!: wf_world_update_session split: sum.splits option.splits)
next
  case (CallConfigure p sid cfg env)
  then show ?thesis using assms
    by (auto simp: Configure_def intro!: wf_world_update_session split: sum.splits option.splits if_splits)
next
  case (CallSubscribeToReads p sid)
  then show ?thesis using assms
    by (auto simp: SubscribeToReads_def make_chan_def intro!: wf_world_update_session split: sum.splits option.splits)
next
  case (CallFlush p sid hw)
  then show ?thesis using assms
    by (auto simp: Flush_def split: sum.splits option.splits)
next
  case (CallCloseAll order)
  with CloseAll_preserves [of "\<lambda>_. True" w order] assms show ?thesis by simp
qed

subsection \<open>Opening a port that already has a session\<close>

lemma ex_world_eq: 
  "ex_world shared = \<lparr>mgr = \<lparr>sessions = [''COM1'' \<mapsto> 0], sessionsByID = [''id-1'' \<mapsto> 0],
              allowSharedAccess = shared, defaultConfig = DefaultConfig\<rparr>,
      heap = [\<lparr>ID = ''id-1'', PortName = ''COM1'', ClientID = ''alice'', Exclusive = False,
            Config = DefaultConfig, Statistics = \<lparr>BytesSent = 0, BytesReceived = 0, Errors = 0,
               OpenedAt = 10, LastActivity = 11\<rparr>,
            port = 3, closed = False, readers = []\<rparr>]\<rparr>"
  by (simp add: ex_world_def OpenPort_def NewManager_def ex_env_def Validate_def DefaultConfig_def)





subsection \<open>Open, then validate\<close>

text \<open>
  Claim C2. After an \<open>OpenPort\<close> that returns a session (which only a valid
  configuration allows), \<open>ValidateSession\<close> with the same port name and the
  identifier of the returned session succeeds and returns that very session;
  with any other identifier it fails with \<open>ErrInvalidSession\<close>.
\<close>

theorem OpenPort_then_ValidateSession:
  assumes "OpenPort w pname config clientID exclusive env = (w', Inr s)"
  shows "Validate config = None
       \<and> ValidateSession w' pname (ID (heap w' ! s)) = Inr s
       \<and> (\<forall>sid. sid \<noteq> ID (heap w' ! s) \<longrightarrow> ValidateSession w' pname sid = Inl ErrInvalidSession)"
  using assms
  by (auto simp: OpenPort_def ValidateSession_def Let_def split: option.splits sum.splits if_splits)

theorem OpenPort_then_ValidateSession_witness:
  "OpenPort (NewManager False DefaultConfig) ''COM1'' DefaultConfig ''alice'' False (ex_env ''id-1'')
     = (ex_world False, Inr 0)
   \<and> ID (heap (ex_world False) ! 0) = ''id-1''
   \<and> ValidateSession (ex_world False) ''COM1'' ''id-1'' = Inr 0
   \<and> ValidateSession (ex_world False) ''COM1'' ''id-2'' = Inl ErrInvalidSession"
proof -
  have o: "OpenPort (NewManager False DefaultConfig) ''COM1'' DefaultConfig ''alice'' False (ex_env ''id-1'')
     = (ex_world False, Inr 0)"
    by (simp add: ex_world_eq)
       (simp add: OpenPort_def NewManager_def ex_env_def Validate_def DefaultConfig_def)
  have i: "ID (heap (ex_world False) ! 0) = ''id-1''" by (simp add: ex_world_eq)
  show ?thesis
    using OpenPort_then_ValidateSession [OF o] o i by simp
qed

subsection \<open>A closed session's identifier stays unusable\<close>

lemma ValidateSession_unknown_id:
  assumes "unknown_id w sid"
  shows "ValidateSession w p sid = Inl ErrPortNotOpen \<or> ValidateSession w p sid = Inl ErrInvalidSession"
  using assms by (auto simp: ValidateSession_def unknown_id_def split: option.splits)

lemma unknown_id_update_session:
  assumes wf: "wf_world w" and u: "unknown_id w sid" and f: "\<And>s. ID (f s) = ID s"
  shows "unknown_id (update_session w a f) sid"
  unfolding unknown_id_def
proof (intro allI impI)
  fix p b
  assume "sessions (mgr (update_session w a f)) p = Some b"
  then have b: "sessions (mgr w) p = Some b" by simp
  from u b have "ID (heap w ! b) \<noteq> sid" by (simp add: unknown_id_def)
  with wf_worldD(1) [OF wf b] show "ID (heap (update_session w a f) ! b) \<noteq> sid"
    by (auto simp: heap_update_session f)
qed

lemma OpenPort_cases:
  "(\<exists>r. OpenPort w p c cl ex env = (w, Inl r)) \<or>
   (\<exists>h. OpenPort w p c cl ex env =
      (w\<lparr>heap := heap w @ [\<lparr>ID = uuid_New env, PortName = p, ClientID = cl, Exclusive = ex,
            Config = c, Statistics = \<lparr>BytesSent = 0, BytesReceived = 0, Errors = 0,
               OpenedAt = now_OpenedAt env, LastActivity = now_LastActivity env\<rparr>,
            port = h, closed = False, readers = []\<rparr>],
         mgr := (mgr w)\<lparr>sessions := (sessions (mgr w))(p \<mapsto> length (heap w)),
           sessionsByID := (sessionsByID (mgr w))(uuid_New env \<mapsto> length (heap w))\<rparr>\<rparr>,
       Inr (length (heap w))))"
  by (auto simp: OpenPort_def Let_def split: option.splits sum.splits if_splits)

lemma unknown_id_OpenPort:
  assumes wf: "wf_world w" and u: "unknown_id w sid" and n: "uuid_New env \<noteq> sid"
  shows "unknown_id (fst (OpenPort w p c cl ex env)) sid"
  using OpenPort_cases [of w p c cl ex env]
proof (elim disjE exE)
  fix r assume "OpenPort w p c cl ex env = (w, Inl r)"
  with u show ?thesis by simp
next
  fix h
  assume eq: "OpenPort w p c cl ex env =
      (w\<lparr>heap := heap w @ [\<lparr>ID = uuid_New env, PortName = p, ClientID = cl, Exclusive = ex,
            Config = c, Statistics = \<lparr>BytesSent = 0, BytesReceived = 0, Errors = 0,
               OpenedAt = now_OpenedAt env, LastActivity = now_LastActivity env\<rparr>,
            port = h, closed = False, readers = []\<rparr>],
         mgr := (mgr w)\<lparr>sessions := (sessions (mgr w))(p \<mapsto> length (heap w)),
           sessionsByID := (sessionsByID (mgr w))(uuid_New env \<mapsto> length (heap w))\<rparr>\<rparr>,
       Inr (length (heap w)))"
  show ?thesis
    unfolding eq unknown_id_def
  proof (intro allI impI, goal_cases)
    case (1 q b)
    show ?case
    proof (cases "q = p")
      case True
      with 1 have "b = length (heap w)" by simp
      then show ?thesis using n by simp
    next
      case False
      with 1 have b: "sessions (mgr w) q = Some b" by simp
      from u b have "ID (heap w ! b) \<noteq> sid" by (simp add: unknown_id_def)
      with wf_worldD(1) [OF wf b] show ?thesis by (simp add: nth_append)
    qed
  qed
qed

lemma ClosePort_cases:
  assumes wf: "wf_world w"
  shows "ClosePort w p sid hw = (w, Some ErrPortNotOpen) \<and> sessions (mgr w) p = None
    \<or> ClosePort w p sid hw = (w, Some ErrInvalidSession)
         \<and> (\<exists>a. sessions (mgr w) p = Some a \<and> ID (heap w ! a) \<noteq> sid)
    \<or> (\<exists>a. sessions (mgr w) p = Some a \<and> ID (heap w ! a) = sid \<and>
         ClosePort w p sid hw =
          (w\<lparr>heap := (heap w)[a := (heap w ! a)\<lparr>closed := True, readers := []\<rparr>],
             mgr := (mgr w)\<lparr>sessions := (sessions (mgr w))(p := None),
               sessionsByID := (sessionsByID (mgr w))(sid := None)\<rparr>\<rparr>,
           map_option ErrHardware hw))"
proof (cases "sessions (mgr w) p")
  case None
  then show ?thesis by (simp add: ClosePort_def)
next
  case (Some a)
  note d = wf_worldD [OF wf Some]
  show ?thesis
    using Some d by (auto simp: ClosePort_def closeSessionLocked_def Let_def)
qed

lemma ID_heap_close:
  "b < length h \<Longrightarrow> ID (h[a := (h ! a)\<lparr>closed := c, readers := r\<rparr>] ! b) = ID (h ! b)"
  by (cases "b = a") simp_all

lemma unknown_id_ClosePort:
  assumes wf: "wf_world w" and u: "unknown_id w sid"
  shows "unknown_id (fst (ClosePort w p sid' hw)) sid"
  using ClosePort_cases [OF wf, of p sid' hw]
proof (elim disjE exE conjE)
  fix a
  assume a: "sessions (mgr w) p = Some a" and "ID (heap w ! a) = sid'"
    and eq: "ClosePort w p sid' hw =
          (w\<lparr>heap := (heap w)[a := (heap w ! a)\<lparr>closed := True, readers := []\<rparr>],
             mgr := (mgr w)\<lparr>sessions := (sessions (mgr w))(p := None),
               sessionsByID := (sessionsByID (mgr w))(sid' := None)\<rparr>\<rparr>,
           map_option ErrHardware hw)"
  show ?thesis unfolding eq unknown_id_def
  proof (intro allI impI, goal_cases)
    case (1 q b)
    then have q: "q \<noteq> p" and b: "sessions (mgr w) q = Some b" by (auto split: if_splits)
    from u b have "ID (heap w ! b) \<noteq> sid" by (simp add: unknown_id_def)
    with wf_worldD(1) [OF wf b] show ?case by (simp add: ID_heap_close)
  qed
qed (use u in simp_all)

lemma unknown_id_do_call:
  assumes wf: "wf_world w" and u: "unknown_id w sid" and n: "sid \<notin> set (issued [c])"
  shows "unknown_id (do_call w c) sid"
proof (cases c)
  case (CallOpenPort p cfg cl ex env)
  then show ?thesis using wf u n by (simp add: unknown_id_OpenPort)
next
  case (CallClosePort p sid' hw)
  then show ?thesis using wf u by (simp add: unknown_id_ClosePort)
next
  case (CallWrite p sid' d env)
  then show ?thesis using wf u
    by (auto simp: Write_def intro!: unknown_id_update_session split: sum.splits option.splits)
next
  case (CallRead p sid' n env)
  then show ?thesis using wf u
    by (auto simp: Read_def Let_def intro!: unknown_id_update_session split: sum.splits option.splits)
next
  case (CallConfigure p sid' cfg env)
  then show ?thesis using wf u
    by (auto simp: Configure_def intro!: unknown_id_update_session split: sum.splits option.splits if_splits)
next
  case (CallSubscribeToReads p sid')
  then show ?thesis using wf u
    by (auto simp: SubscribeToReads_def intro!: unknown_id_update_session split: sum.splits option.splits)
next
  case (CallFlush p sid' hw)
  then show ?thesis using wf u
    by (auto simp: Flush_def split: sum.splits option.splits)
next
  case (CallCloseAll order)
  with CloseAll_preserves [of "\<lambda>w. unknown_id w sid" w order] wf u show ?thesis
    by (simp add: unknown_id_ClosePort)
qed

lemma issued_Cons: "set (issued (c # cs)) = set (issued [c]) \<union> set (issued cs)"
  by (cases c) auto

lemma issued_append: "issued (cs @ ds) = issued cs @ issued ds"
  by (induction cs rule: issued.induct) auto

lemma wf_world_do_calls: "wf_world w \<Longrightarrow> wf_world (do_calls w cs)"
  by (induction cs arbitrary: w) (auto simp: wf_world_do_call)

lemma unknown_id_do_calls:
  "wf_world w \<Longrightarrow> unknown_id w sid \<Longrightarrow> sid \<notin> set (issued cs) \<Longrightarrow> unknown_id (do_calls w cs) sid"
proof (induction cs arbitrary: w)
  case Nil
  then show ?case by simp
next
  case (Cons c cs)
  from Cons.prems(3) have "sid \<notin> set (issued [c])" "sid \<notin> set (issued cs)"
    by (simp_all add: issued_Cons [of c cs])
  with Cons.prems(1,2) show ?case
    by (simp add: Cons.IH wf_world_do_call unknown_id_do_call)
qed

lemma unknown_id_after_ClosePort:
  assumes wf: "wf_world w" and di: "ids_distinct w"
    and a: "sessions (mgr w) p = Some a" and i: "ID (heap w ! a) = sid"
  shows "unknown_id (fst (ClosePort w p sid hw)) sid"
  using ClosePort_cases [OF wf, of p sid hw]
proof (elim disjE exE conjE)
  fix a'
  assume a': "sessions (mgr w) p = Some a'" 
    and eq: "ClosePort w p sid hw =
          (w\<lparr>heap := (heap w)[a' := (heap w ! a')\<lparr>closed := True, readers := []\<rparr>],
             mgr := (mgr w)\<lparr>sessions := (sessions (mgr w))(p := None),
               sessionsByID := (sessionsByID (mgr w))(sid := None)\<rparr>\<rparr>,
           map_option ErrHardware hw)"
  from a a' have [simp]: "a' = a" by simp
  show ?thesis unfolding eq unknown_id_def
  proof (intro allI impI, goal_cases)
    case (1 q b)
    then have q: "q \<noteq> p" and b: "sessions (mgr w) q = Some b" by (auto split: if_splits)
    from di a b q i have "ID (heap w ! b) \<noteq> sid" unfolding ids_distinct_def by blast
    with wf_worldD(1) [OF wf b] show ?case by (simp add: ID_heap_close)
  qed
qed (use a i in simp_all)

lemma unknown_id_if_outside: "ids_within w U \<Longrightarrow> sid \<notin> U \<Longrightarrow> unknown_id w sid"
  by (auto simp: ids_within_def unknown_id_def)

lemma ids_distinct_update_session:
  assumes wf: "wf_world w" and di: "ids_distinct w" and f: "\<And>s. ID (f s) = ID s"
  shows "ids_distinct (update_session w a f)"
  unfolding ids_distinct_def
proof (intro allI impI, elim conjE)
  fix p q b c
  assume "sessions (mgr (update_session w a f)) p = Some b"
    and "sessions (mgr (update_session w a f)) q = Some c"
    and e: "ID (heap (update_session w a f) ! b) = ID (heap (update_session w a f) ! c)"
  then have b: "sessions (mgr w) p = Some b" and c: "sessions (mgr w) q = Some c" by simp_all
  from e wf_worldD(1) [OF wf b] wf_worldD(1) [OF wf c]
  have "ID (heap w ! b) = ID (heap w ! c)" by (simp add: heap_update_session f split: if_splits)
  with di b c show "p = q" unfolding ids_distinct_def by blast
qed

lemma ids_within_update_session:
  assumes wf: "wf_world w" and di: "ids_within w U" and f: "\<And>s. ID (f s) = ID s"
  shows "ids_within (update_session w a f) U"
  unfolding ids_within_def
proof (intro allI impI)
  fix p b
  assume "sessions (mgr (update_session w a f)) p = Some b"
  then have b: "sessions (mgr w) p = Some b" by simp
  from di b have "ID (heap w ! b) \<in> U" by (simp add: ids_within_def)
  with wf_worldD(1) [OF wf b] show "ID (heap (update_session w a f) ! b) \<in> U"
    by (auto simp: heap_update_session f)
qed

lemma ids_distinct_OpenPort:
  assumes wf: "wf_world w" and di: "ids_distinct w" and u: "unknown_id w (uuid_New env)"
  shows "ids_distinct (fst (OpenPort w p c cl ex env))"
  using OpenPort_cases [of w p c cl ex env]
proof (elim disjE exE)
  fix r assume "OpenPort w p c cl ex env = (w, Inl r)"
  with di show ?thesis by simp
next
  fix h
  assume eq: "OpenPort w p c cl ex env =
      (w\<lparr>heap := heap w @ [\<lparr>ID = uuid_New env, PortName = p, ClientID = cl, Exclusive = ex,
            Config = c, Statistics = \<lparr>BytesSent = 0, BytesReceived = 0, Errors = 0,
               OpenedAt = now_OpenedAt env, LastActivity = now_LastActivity env\<rparr>,
            port = h, closed = False, readers = []\<rparr>],
         mgr := (mgr w)\<lparr>sessions := (sessions (mgr w))(p \<mapsto> length (heap w)),
           sessionsByID := (sessionsByID (mgr w))(uuid_New env \<mapsto> length (heap w))\<rparr>\<rparr>,
       Inr (length (heap w)))"
  have old: "ID ((heap w @ [s]) ! b) = ID (heap w ! b) \<and> ID (heap w ! b) \<noteq> uuid_New env"
    if "q \<noteq> p" and "((sessions (mgr w))(p \<mapsto> length (heap w))) q = Some b" for q b s
  proof -
    from that have b: "sessions (mgr w) q = Some b" by simp
    from u b have "ID (heap w ! b) \<noteq> uuid_New env" by (simp add: unknown_id_def)
    with wf_worldD(1) [OF wf b] show ?thesis by (simp add: nth_append)
  qed
  show ?thesis
    unfolding eq ids_distinct_def
  proof (intro allI impI, elim conjE, goal_cases)
    case (1 q r b c)
    show ?case
    proof (cases "q = p"; cases "r = p")
      assume "q = p" "r = p" then show ?thesis by simp
    next
      assume q: "q = p" and r: "r \<noteq> p"
      from 1 q have "b = length (heap w)" by simp
      with 1 old [OF r] show ?thesis by (auto split: if_splits)
    next
      assume q: "q \<noteq> p" and r: "r = p"
      from 1 r have "c = length (heap w)" by simp
      with 1 old [OF q] show ?thesis by (auto split: if_splits)
    next
      assume q: "q \<noteq> p" and r: "r \<noteq> p"
      from 1 q r have b: "sessions (mgr w) q = Some b" and c: "sessions (mgr w) r = Some c"
        by simp_all
      from 1 old [OF q] old [OF r] q r have "ID (heap w ! b) = ID (heap w ! c)" by simp
      with di b c show ?thesis unfolding ids_distinct_def by blast
    qed
  qed
qed

lemma ids_within_OpenPort:
  assumes wf: "wf_world w" and iw: "ids_within w U"
  shows "ids_within (fst (OpenPort w p c cl ex env)) (insert (uuid_New env) U)"
  using OpenPort_cases [of w p c cl ex env]
proof (elim disjE exE)
  fix r assume "OpenPort w p c cl ex env = (w, Inl r)"
  with iw show ?thesis by (auto simp: ids_within_def)
next
  fix h
  assume eq: "OpenPort w p c cl ex env =
      (w\<lparr>heap := heap w @ [\<lparr>ID = uuid_New env, PortName = p, ClientID = cl, Exclusive = ex,
            Config = c, Statistics = \<lparr>BytesSent = 0, BytesReceived = 0, Errors = 0,
               OpenedAt = now_OpenedAt env, LastActivity = now_LastActivity env\<rparr>,
            port = h, closed = False, readers = []\<rparr>],
         mgr := (mgr w)\<lparr>sessions := (sessions (mgr w))(p \<mapsto> length (heap w)),
           sessionsByID := (sessionsByID (mgr w))(uuid_New env \<mapsto> length (heap w))\<rparr>\<rparr>,
       Inr (length (heap w)))"
  show ?thesis
    unfolding eq ids_within_def
  proof (intro allI impI, goal_cases)
    case (1 q b)
    show ?case
    proof (cases "q = p")
      case True
      with 1 have "b = length (heap w)" by simp
      then show ?thesis by simp
    next
      case False
      with 1 have b: "sessions (mgr w) q = Some b" by simp
      from iw b have "ID (heap w ! b) \<in> U" by (simp add: ids_within_def)
      with wf_worldD(1) [OF wf b] show ?thesis by (simp add: nth_append)
    qed
  qed
qed

lemma ids_ClosePort:
  assumes wf: "wf_world w"
  shows "ids_distinct w \<Longrightarrow> ids_distinct (fst (ClosePort w p sid hw))"
    and "ids_within w U \<Longrightarrow> ids_within (fst (ClosePort w p sid hw)) U"
proof -
  have *: "\<exists>r. ClosePort w p sid hw = (w, r) \<or>
     (\<exists>a. ClosePort w p sid hw =
          (w\<lparr>heap := (heap w)[a := (heap w ! a)\<lparr>closed := True, readers := []\<rparr>],
             mgr := (mgr w)\<lparr>sessions := (sessions (mgr w))(p := None),
               sessionsByID := (sessionsByID (mgr w))(sid := None)\<rparr>\<rparr>, r))"
    using ClosePort_cases [OF wf, of p sid hw] by auto
  have sub: "sessions (mgr w) q = Some b \<and> b < length (heap w)"
    if "((sessions (mgr w))(p := None)) q = Some b" for q b
    using that wf_worldD(1) [OF wf, of q b] by (auto split: if_splits)
  show "ids_distinct (fst (ClosePort w p sid hw))" if di: "ids_distinct w"
    using *
  proof (elim exE disjE)
    fix r a
    assume eq: "ClosePort w p sid hw =
          (w\<lparr>heap := (heap w)[a := (heap w ! a)\<lparr>closed := True, readers := []\<rparr>],
             mgr := (mgr w)\<lparr>sessions := (sessions (mgr w))(p := None),
               sessionsByID := (sessionsByID (mgr w))(sid := None)\<rparr>\<rparr>, r)"
    show ?thesis unfolding eq ids_distinct_def
    proof (intro allI impI, elim conjE, goal_cases)
      case (1 q r b c)
      from 1(1) have b: "sessions (mgr w) q = Some b" "b < length (heap w)"
        using sub [of q b] by simp_all
      from 1(2) have c: "sessions (mgr w) r = Some c" "c < length (heap w)"
        using sub [of r c] by simp_all
      from 1(3) b c have "ID (heap w ! b) = ID (heap w ! c)" by (simp add: ID_heap_close)
      with di b c show ?case unfolding ids_distinct_def by blast
    qed
  qed (use di in simp)
  show "ids_within (fst (ClosePort w p sid hw)) U" if iw: "ids_within w U"
    using *
  proof (elim exE disjE)
    fix r a
    assume eq: "ClosePort w p sid hw =
          (w\<lparr>heap := (heap w)[a := (heap w ! a)\<lparr>closed := True, readers := []\<rparr>],
             mgr := (mgr w)\<lparr>sessions := (sessions (mgr w))(p := None),
               sessionsByID := (sessionsByID (mgr w))(sid := None)\<rparr>\<rparr>, r)"
    show ?thesis unfolding eq ids_within_def
    proof (intro allI impI, goal_cases)
      case (1 q b)
      then have b: "sessions (mgr w) q = Some b" "b < length (heap w)"
        using sub [of q b] by simp_all
      with iw show ?case by (simp add: ID_heap_close ids_within_def)
    qed
  qed (use iw in simp)
qed

lemma ids_within_mono: "ids_within w U \<Longrightarrow> U \<subseteq> V \<Longrightarrow> ids_within w V"
  by (auto simp: ids_within_def)

lemma registry_inv_do_call:
  assumes inv: "registry_inv w U" and fresh: "set (issued [c]) \<inter> U = {}"
  shows "registry_inv (do_call w c) (U \<union> set (issued [c]))"
proof -
  from inv have wf: "wf_world w" and di: "ids_distinct w" and iw: "ids_within w U"
    by (simp_all add: registry_inv_def)
  have "ids_distinct (do_call w c) \<and> ids_within (do_call w c) (U \<union> set (issued [c]))"
  proof (cases c)
    case (CallOpenPort p cfg cl ex env)
    with fresh have "uuid_New env \<notin> U" by simp
    with iw have "unknown_id w (uuid_New env)" by (simp add: unknown_id_if_outside)
    then show ?thesis using CallOpenPort wf di iw
      by (simp add: ids_distinct_OpenPort ids_within_OpenPort)
  next
    case (CallClosePort p sid hw)
    then show ?thesis using wf di iw by (simp add: ids_ClosePort)
  next
    case (CallWrite p sid d env)
    then show ?thesis using wf di iw
      by (auto simp: Write_def intro!: ids_distinct_update_session ids_within_update_session
          split: sum.splits option.splits)
  next
    case (CallRead p sid n env)
    then show ?thesis using wf di iw
      by (auto simp: Read_def Let_def intro!: ids_distinct_update_session ids_within_update_session
          split: sum.splits option.splits)
  next
    case (CallConfigure p sid cfg env)
    then show ?thesis using wf di iw
      by (auto simp: Configure_def intro!: ids_distinct_update_session ids_within_update_session
          split: sum.splits option.splits if_splits)
  next
    case (CallSubscribeToReads p sid)
    then show ?thesis using wf di iw
      by (auto simp: SubscribeToReads_def intro!: ids_distinct_update_session ids_within_update_session
          split: sum.splits option.splits)
  next
    case (CallFlush p sid hw)
    then show ?thesis using wf di iw
      by (auto simp: Flush_def split: sum.splits option.splits)
  next
    case (CallCloseAll order)
    with CloseAll_preserves [of "\<lambda>w. ids_distinct w \<and> ids_within w U" w order] wf di iw
    show ?thesis by (simp add: ids_ClosePort)
  qed
  with wf show ?thesis by (simp add: registry_inv_def wf_world_do_call)
qed

lemma registry_inv_do_calls:
  "registry_inv w U \<Longrightarrow> distinct (issued cs) \<Longrightarrow> set (issued cs) \<inter> U = {}
     \<Longrightarrow> registry_inv (do_calls w cs) (U \<union> set (issued cs))"
proof (induction cs arbitrary: w U)
  case Nil
  then show ?case by simp
next
  case (Cons c cs)
  have split: "issued (c # cs) = issued [c] @ issued cs"
    using issued_append [of "[c]" cs] by simp
  from Cons.prems(2,3) have f1: "set (issued [c]) \<inter> U = {}"
    and d: "distinct (issued cs)" and f2: "set (issued cs) \<inter> (U \<union> set (issued [c])) = {}"
    unfolding split by auto
  from Cons.IH [OF registry_inv_do_call [OF Cons.prems(1) f1] d f2]
  show ?case unfolding split by (simp add: Un_assoc)
qed

lemma registry_inv_NewManager: "registry_inv (NewManager sh d) {}"
  by (simp add: registry_inv_def wf_world_def ids_distinct_def ids_within_def NewManager_def)

lemma do_calls_append: "do_calls w (cs @ ds) = do_calls (do_calls w cs) ds"
  by (induction cs arbitrary: w) auto

text \<open>
  Claim C3. Let the world be reached from \<open>NewManager\<close> by any sequence of
  calls (of \<open>OpenPort\<close>, \<open>ClosePort\<close>, \<open>CloseAll\<close>, \<open>Write\<close>, \<open>Read\<close>,
  \<open>Configure\<close>, \<open>SubscribeToReads\<close> and \<open>Flush\<close>, whatever the driver
  answers), and let \<^verbatim>\<open>uuid.New()\<close> never hand out the same identifier twice. If
  \<open>ClosePort\<close> passes its validation (a session is registered under the port
  name and carries the given identifier), then it returns exactly what the
  driver's \<open>Close\<close> returned, error or not, and the session is gone from the
  table by name and from the table by identifier. After any further sequence
  of calls, \<open>Read\<close>, \<open>Write\<close> and \<open>Configure\<close> with the old identifier, on
  any port name, fail with \<open>ErrPortNotOpen\<close> or \<open>ErrInvalidSession\<close>.
\<close>

theorem ClosePort_unregisters:
  assumes uuids: "distinct (issued (before @ after))"
    and w: "w = do_calls (NewManager shared dflt) before"
    and a: "sessions (mgr w) pname = Some a" and i: "ID (heap w ! a) = sid"
    and w': "w' = do_calls (fst (ClosePort w pname sid hw_close)) after"
  shows "snd (ClosePort w pname sid hw_close) = map_option ErrHardware hw_close
    \<and> sessions (mgr (fst (ClosePort w pname sid hw_close))) pname = None
    \<and> sessionsByID (mgr (fst (ClosePort w pname sid hw_close))) sid = None
    \<and> snd (Read w' p sid maxBytes renv) \<in> {Inl ErrPortNotOpen, Inl ErrInvalidSession}
    \<and> snd (Write w' p sid data wenv) \<in> {(0, Some ErrPortNotOpen), (0, Some ErrInvalidSession)}
    \<and> snd (Configure w' p sid config cenv) \<in> {Some ErrPortNotOpen, Some ErrInvalidSession}"
proof -
  from uuids have d: "distinct (issued before)"
    and disj: "set (issued before) \<inter> set (issued after) = {}"
    by (simp_all add: issued_append)
  from registry_inv_do_calls [OF registry_inv_NewManager d, of shared dflt] w
  have inv: "registry_inv w (set (issued before))" by simp
  then have wf: "wf_world w" and di: "ids_distinct w" and iw: "ids_within w (set (issued before))"
    by (simp_all add: registry_inv_def)
  from iw a i have "sid \<in> set (issued before)" by (auto simp: ids_within_def)
  with disj have later: "sid \<notin> set (issued after)" by auto
  let ?w1 = "fst (ClosePort w pname sid hw_close)"
  from ClosePort_cases [OF wf, of pname sid hw_close] a i
  have eq: "ClosePort w pname sid hw_close =
          (w\<lparr>heap := (heap w)[a := (heap w ! a)\<lparr>closed := True, readers := []\<rparr>],
             mgr := (mgr w)\<lparr>sessions := (sessions (mgr w))(pname := None),
               sessionsByID := (sessionsByID (mgr w))(sid := None)\<rparr>\<rparr>,
           map_option ErrHardware hw_close)"
    by auto
  have u1: "unknown_id ?w1 sid"
    by (rule unknown_id_after_ClosePort [OF wf di a i])
  have "wf_world ?w1" by (rule wf_world_ClosePort [OF wf])
  from unknown_id_do_calls [OF this u1 later] w'
  have "unknown_id w' sid" by simp
  from ValidateSession_unknown_id [OF this, of p]
  have v: "ValidateSession w' p sid = Inl ErrPortNotOpen
         \<or> ValidateSession w' p sid = Inl ErrInvalidSession" .
  have r: "snd (Read w' p sid maxBytes renv) \<in> {Inl ErrPortNotOpen, Inl ErrInvalidSession}"
    using v by (auto simp: Read_def)
  have wr: "snd (Write w' p sid data wenv) \<in> {(0, Some ErrPortNotOpen), (0, Some ErrInvalidSession)}"
    using v by (auto simp: Write_def)
  have c: "snd (Configure w' p sid config cenv) \<in> {Some ErrPortNotOpen, Some ErrInvalidSession}"
    using v by (auto simp: Configure_def)
  show ?thesis using r wr c by (simp add: eq)
qed

theorem ClosePort_unregisters_witness:
  "distinct (issued ([CallOpenPort ''COM1'' DefaultConfig ''alice'' False (ex_env ''id-1'')]
       @ [CallOpenPort ''COM1'' DefaultConfig ''bob'' True (ex_env ''id-2'')]))
   \<and> ex_world False = do_calls (NewManager False DefaultConfig)
        [CallOpenPort ''COM1'' DefaultConfig ''alice'' False (ex_env ''id-1'')]
   \<and> sessions (mgr (ex_world False)) ''COM1'' = Some 0
   \<and> ID (heap (ex_world False) ! 0) = ''id-1''
   \<and> snd (ClosePort (ex_world False) ''COM1'' ''id-1'' (Some 5)) = Some (ErrHardware 5)
   \<and> sessions (mgr (fst (ClosePort (ex_world False) ''COM1'' ''id-1'' (Some 5)))) ''COM1'' = None
   \<and> sessionsByID (mgr (fst (ClosePort (ex_world False) ''COM1'' ''id-1'' (Some 5)))) ''id-1'' = None
   \<and> snd (Read (do_calls (fst (ClosePort (ex_world False) ''COM1'' ''id-1'' (Some 5)))
              [CallOpenPort ''COM1'' DefaultConfig ''bob'' True (ex_env ''id-2'')])
            ''COM1'' ''id-1'' 16 \<lparr>port_Read_data = [], port_Read_err = None, now_Read = 20\<rparr>)
        \<in> {Inl ErrPortNotOpen, Inl ErrInvalidSession}"
proof -
  have 1: "distinct (issued ([CallOpenPort ''COM1'' DefaultConfig ''alice'' False (ex_env ''id-1'')]
       @ [CallOpenPort ''COM1'' DefaultConfig ''bob'' True (ex_env ''id-2'')]))"
    by (simp add: ex_env_def)
  have 2: "ex_world False = do_calls (NewManager False DefaultConfig)
        [CallOpenPort ''COM1'' DefaultConfig ''alice'' False (ex_env ''id-1'')]"
    by (simp add: ex_world_def)
  have 3: "sessions (mgr (ex_world False)) ''COM1'' = Some 0"
    by (simp add: ex_world_eq)
  have 4: "ID (heap (ex_world False) ! 0) = ''id-1''"
    by (simp add: ex_world_eq)
  show ?thesis
    using ClosePort_unregisters [OF 1 2 3 4 refl, of "Some 5" "''COM1''" 16
        "\<lparr>port_Read_data = [], port_Read_err = None, now_Read = 20\<rparr>"] 1 2 3 4
    by simp
qed

subsection \<open>What a successful call does to the statistics\<close>

lemma ValidateSession_in_range:
  assumes "wf_world w" and "ValidateSession w p sid = Inr a"
  shows "a < length (heap w)"
  using assms wf_worldD(1) ValidateSession_Inr by blast

text \<open>
  Claim C7, as the code has it. A successful \<open>Write\<close> adds the number of bytes
  written to \<open>BytesSent\<close> (modulo \<open>2^64\<close>) and sets \<open>LastActivity\<close> to the
  clock; a successful \<open>Read\<close> does the same with \<open>BytesReceived\<close> and the
  number of bytes returned. A successful \<open>Configure\<close> replaces the stored
  configuration and leaves the statistics, \<open>LastActivity\<close> included, as they
  were.
\<close>

theorem session_statistics_updates:
  assumes wf: "wf_world w"
  shows "(Write w p sid d wenv = (w1, n, None) \<longrightarrow>
            (\<exists>a. ValidateSession w p sid = Inr a \<and>
               Statistics (heap w1 ! a) = (Statistics (heap w ! a))
                 \<lparr>BytesSent := BytesSent (Statistics (heap w ! a)) + of_int n,
                  LastActivity := now_Write wenv\<rparr>))
       \<and> (Read w p sid m renv = (w2, Inr bs) \<longrightarrow>
            (\<exists>a. ValidateSession w p sid = Inr a \<and>
               Statistics (heap w2 ! a) = (Statistics (heap w ! a))
                 \<lparr>BytesReceived := BytesReceived (Statistics (heap w ! a)) + of_nat (length bs),
                  LastActivity := now_Read renv\<rparr>))
       \<and> (Configure w p sid c cenv = (w3, None) \<longrightarrow>
            (\<exists>a. ValidateSession w p sid = Inr a \<and>
               Statistics (heap w3 ! a) = Statistics (heap w ! a) \<and>
               Config (heap w3 ! a) = c))"
proof (intro conjI impI)
  assume "Write w p sid d wenv = (w1, n, None)"
  then show "\<exists>a. ValidateSession w p sid = Inr a \<and>
               Statistics (heap w1 ! a) = (Statistics (heap w ! a))
                 \<lparr>BytesSent := BytesSent (Statistics (heap w ! a)) + of_int n,
                  LastActivity := now_Write wenv\<rparr>"
    using ValidateSession_in_range [OF wf, of p sid]
    by (auto simp: Write_def heap_update_session split: sum.splits option.splits)
next
  assume "Read w p sid m renv = (w2, Inr bs)"
  then show "\<exists>a. ValidateSession w p sid = Inr a \<and>
               Statistics (heap w2 ! a) = (Statistics (heap w ! a))
                 \<lparr>BytesReceived := BytesReceived (Statistics (heap w ! a)) + of_nat (length bs),
                  LastActivity := now_Read renv\<rparr>"
    using ValidateSession_in_range [OF wf, of p sid]
    by (auto simp: Read_def Let_def heap_update_session split: sum.splits option.splits if_splits)
next
  assume "Configure w p sid c cenv = (w3, None)"
  then show "\<exists>a. ValidateSession w p sid = Inr a \<and>
               Statistics (heap w3 ! a) = Statistics (heap w ! a) \<and>
               Config (heap w3 ! a) = c"
    using ValidateSession_in_range [OF wf, of p sid]
    by (auto simp: Configure_def heap_update_session split: sum.splits option.splits if_splits)
qed

lemma wf_world_ex_world: "wf_world (ex_world shared)"
  unfolding ex_world_def by (rule wf_world_OpenPort [OF wf_world_NewManager])

lemma ValidateSession_ex_world: "ValidateSession (ex_world shared) ''COM1'' ''id-1'' = Inr 0"
  by (simp add: ex_world_eq ValidateSession_def)

theorem session_statistics_updates_witness:
  "LastActivity (Statistics (heap (fst (Write (ex_world False) ''COM1'' ''id-1'' [1, 2, 3]
       \<lparr>port_Write_n = 3, port_Write_err = None, now_Write = 20\<rparr>)) ! 0)) = 20
   \<and> BytesSent (Statistics (heap (fst (Write (ex_world False) ''COM1'' ''id-1'' [1, 2, 3]
       \<lparr>port_Write_n = 3, port_Write_err = None, now_Write = 20\<rparr>)) ! 0)) = 3
   \<and> LastActivity (Statistics (heap (fst (Read (ex_world False) ''COM1'' ''id-1'' 16
       \<lparr>port_Read_data = [7, 8], port_Read_err = None, now_Read = 30\<rparr>)) ! 0)) = 30
   \<and> BytesReceived (Statistics (heap (fst (Read (ex_world False) ''COM1'' ''id-1'' 16
       \<lparr>port_Read_data = [7, 8], port_Read_err = None, now_Read = 30\<rparr>)) ! 0)) = 2
   \<and> LastActivity (Statistics (heap (fst (Configure (ex_world False) ''COM1'' ''id-1''
       (DefaultConfig\<lparr>BaudRate := 115200\<rparr>)
       \<lparr>port_SetMode = None, cfg_SetReadTimeout = None\<rparr>)) ! 0)) = 11
   \<and> BaudRate (Config (heap (fst (Configure (ex_world False) ''COM1'' ''id-1''
       (DefaultConfig\<lparr>BaudRate := 115200\<rparr>)
       \<lparr>port_SetMode = None, cfg_SetReadTimeout = None\<rparr>)) ! 0)) = 115200"
proof -
  let ?wenv = "\<lparr>port_Write_n = 3, port_Write_err = None, now_Write = 20\<rparr>"
  let ?renv = "\<lparr>port_Read_data = [7, 8], port_Read_err = None, now_Read = 30\<rparr>"
  let ?cenv = "\<lparr>port_SetMode = None, cfg_SetReadTimeout = None\<rparr>"
  let ?c = "DefaultConfig\<lparr>BaudRate := 115200\<rparr>"
  obtain w1 where w1: "Write (ex_world False) ''COM1'' ''id-1'' [1, 2, 3] ?wenv = (w1, 3, None)"
    by (simp add: Write_def ValidateSession_ex_world)
  obtain w2 where w2: "Read (ex_world False) ''COM1'' ''id-1'' 16 ?renv = (w2, Inr [7, 8])"
    by (simp add: Read_def ValidateSession_ex_world)
  obtain w3 where w3: "Configure (ex_world False) ''COM1'' ''id-1'' ?c ?cenv = (w3, None)"
    by (simp add: Configure_def ValidateSession_ex_world Validate_def DefaultConfig_def)
  have s: "Statistics (heap (ex_world False) ! 0) =
     \<lparr>BytesSent = 0, BytesReceived = 0, Errors = 0, OpenedAt = 10, LastActivity = 11\<rparr>"
    by (simp add: ex_world_eq)
  show ?thesis
    using session_statistics_updates [OF wf_world_ex_world, of False "''COM1''" "''id-1''"
        "[1, 2, 3]" ?wenv w1 3 16 ?renv w2 "[7, 8]" ?c ?cenv w3]
      w1 w2 w3 s
    by (simp add: ValidateSession_ex_world)
qed

text \<open>
  \<open>Configure\<close> succeeds on the session opened at time 11 and the session's
  statistics are the same record afterwards: \<open>LastActivity\<close> is still 11.
\<close>

theorem Configure_statistics_counterexample:
  "Configure (ex_world False) ''COM1'' ''id-1'' (DefaultConfig\<lparr>BaudRate := 115200\<rparr>)
       \<lparr>port_SetMode = None, cfg_SetReadTimeout = None\<rparr>
     = (update_session (ex_world False) 0 (\<lambda>s. s\<lparr>Config := DefaultConfig\<lparr>BaudRate := 115200\<rparr>\<rparr>), None)
   \<and> Statistics (heap (update_session (ex_world False) 0
         (\<lambda>s. s\<lparr>Config := DefaultConfig\<lparr>BaudRate := 115200\<rparr>\<rparr>)) ! 0)
       = Statistics (heap (ex_world False) ! 0)
   \<and> LastActivity (Statistics (heap (ex_world False) ! 0)) = 11"
proof (intro conjI)
  show "Configure (ex_world False) ''COM1'' ''id-1'' (DefaultConfig\<lparr>BaudRate := 115200\<rparr>)
       \<lparr>port_SetMode = None, cfg_SetReadTimeout = None\<rparr>
     = (update_session (ex_world False) 0 (\<lambda>s. s\<lparr>Config := DefaultConfig\<lparr>BaudRate := 115200\<rparr>\<rparr>), None)"
    by (simp add: Configure_def ValidateSession_ex_world Validate_def DefaultConfig_def)
  show "Statistics (heap (update_session (ex_world False) 0
         (\<lambda>s. s\<lparr>Config := DefaultConfig\<lparr>BaudRate := 115200\<rparr>\<rparr>)) ! 0)
       = Statistics (heap (ex_world False) ! 0)"
    by (simp add: update_session_def ex_world_eq)
  show "LastActivity (Statistics (heap (ex_world False) ! 0)) = 11"
    by (simp add: ex_world_eq)
qed

section \<open>Properties of the continuous Reader\<close>

subsection \<open>Closing and sending on the subscriber channels\<close>

lemma close_chans_Some:
  assumes "distinct subs" and "\<forall>c \<in> set subs. c < length cs \<and> \<not> chan_closed (cs ! c)"
  shows "\<exists>cs'. close_chans cs subs = Some cs' \<and> length cs' = length cs \<and>
           (\<forall>i < length cs. cs' ! i =
              (if i \<in> set subs then (cs ! i)\<lparr>chan_closed := True\<rparr> else cs ! i))"
  using assms
proof (induction subs arbitrary: cs)
  case Nil
  then show ?case by simp
next
  case (Cons c subs)
  let ?cs = "cs[c := (cs ! c)\<lparr>chan_closed := True\<rparr>]"
  from Cons.prems have c: "c < length cs" "\<not> chan_closed (cs ! c)" "c \<notin> set subs"
    and d: "distinct subs" by auto
  have "\<forall>x \<in> set subs. x < length ?cs \<and> \<not> chan_closed (?cs ! x)"
    using Cons.prems c by (auto simp: nth_list_update)
  from Cons.IH [OF d this] obtain cs' where
    cs': "close_chans ?cs subs = Some cs'" "length cs' = length cs"
      "\<forall>i < length cs. cs' ! i = (if i \<in> set subs then (?cs ! i)\<lparr>chan_closed := True\<rparr> else ?cs ! i)"
    by auto
  have "\<forall>i < length cs. cs' ! i =
          (if i \<in> set (c # subs) then (cs ! i)\<lparr>chan_closed := True\<rparr> else cs ! i)"
    using cs'(3) c by (auto simp: nth_list_update)
  with cs'(1,2) c show ?case by simp
qed

lemma send_all_Some:
  assumes "distinct subs" and "\<forall>c \<in> set subs. c < length cs \<and> \<not> chan_closed (cs ! c)"
  shows "\<exists>cs'. send_all cs subs ev = Some cs' \<and> length cs' = length cs \<and>
           (\<forall>i < length cs. cs' ! i =
              (if i \<in> set subs \<and> length (chan_buf (cs ! i)) < chan_cap
               then (cs ! i)\<lparr>chan_buf := chan_buf (cs ! i) @ [ev]\<rparr> else cs ! i))"
  using assms
proof (induction subs arbitrary: cs)
  case Nil
  then show ?case by simp
next
  case (Cons c subs)
  from Cons.prems have c: "c < length cs" "\<not> chan_closed (cs ! c)" "c \<notin> set subs"
    and d: "distinct subs" by auto
  show ?case
  proof (cases "length (chan_buf (cs ! c)) < chan_cap")
    case True
    let ?cs = "cs[c := (cs ! c)\<lparr>chan_buf := chan_buf (cs ! c) @ [ev]\<rparr>]"
    have "\<forall>x \<in> set subs. x < length ?cs \<and> \<not> chan_closed (?cs ! x)"
      using Cons.prems c by (auto simp: nth_list_update)
    from Cons.IH [OF d this] obtain cs' where
      cs': "send_all ?cs subs ev = Some cs'" "length cs' = length cs"
        "\<forall>i < length cs. cs' ! i =
           (if i \<in> set subs \<and> length (chan_buf (?cs ! i)) < chan_cap
            then (?cs ! i)\<lparr>chan_buf := chan_buf (?cs ! i) @ [ev]\<rparr> else ?cs ! i)"
      by auto
    have "\<forall>i < length cs. cs' ! i =
          (if i \<in> set (c # subs) \<and> length (chan_buf (cs ! i)) < chan_cap
           then (cs ! i)\<lparr>chan_buf := chan_buf (cs ! i) @ [ev]\<rparr> else cs ! i)"
      using cs'(3) c True by (auto simp: nth_list_update)
    with cs'(1,2) c True show ?thesis by simp
  next
    case False
    have "\<forall>x \<in> set subs. x < length cs \<and> \<not> chan_closed (cs ! x)"
      using Cons.prems by auto
    from Cons.IH [OF d this] obtain cs' where
      cs': "send_all cs subs ev = Some cs'" "length cs' = length cs"
        "\<forall>i < length cs. cs' ! i =
           (if i \<in> set subs \<and> length (chan_buf (cs ! i)) < chan_cap
            then (cs ! i)\<lparr>chan_buf := chan_buf (cs ! i) @ [ev]\<rparr> else cs ! i)"
      by auto
    have "\<forall>i < length cs. cs' ! i =
          (if i \<in> set (c # subs) \<and> length (chan_buf (cs ! i)) < chan_cap
           then (cs ! i)\<lparr>chan_buf := chan_buf (cs ! i) @ [ev]\<rparr> else cs ! i)"
      using cs'(3) c False by auto
    with cs'(1,2) c False show ?thesis by simp
  qed
qed

lemma broadcast_wf:
  assumes wf: "wf_reader x"
  shows "\<exists>x'. broadcast x ev = Inr x' \<and> rdr x' = rdr x \<and> length (chans x') = length (chans x) \<and>
           (\<forall>i < length (chans x). chans x' ! i =
              (if i \<in> set (subscribers (rdr x)) \<and> length (chan_buf (chans x ! i)) < chan_cap
               then (chans x ! i)\<lparr>chan_buf := chan_buf (chans x ! i) @ [ev]\<rparr> else chans x ! i))
           \<and> wf_reader x'"
proof -
  from wf have d: "distinct (subscribers (rdr x))"
    and o: "\<forall>c \<in> set (subscribers (rdr x)). c < length (chans x) \<and> \<not> chan_closed (chans x ! c)"
    and r: "running (rdr x) \<longrightarrow> \<not> stopChan (rdr x)"
    by (simp_all add: wf_reader_def)
  from send_all_Some [OF d o, of ev] obtain cs' where
    cs': "send_all (chans x) (subscribers (rdr x)) ev = Some cs'" "length cs' = length (chans x)"
      "\<forall>i < length (chans x). cs' ! i =
         (if i \<in> set (subscribers (rdr x)) \<and> length (chan_buf (chans x ! i)) < chan_cap
          then (chans x ! i)\<lparr>chan_buf := chan_buf (chans x ! i) @ [ev]\<rparr> else chans x ! i)"
    by auto
  have "wf_reader (x\<lparr>chans := cs'\<rparr>)"
    using d o r cs'(2,3) by (auto simp: wf_reader_def)
  with cs' show ?thesis by (simp add: broadcast_def)
qed

lemma Stop_running_wf:
  assumes wf: "wf_reader x" and run: "running (rdr x)"
  shows "\<exists>x'. Stop x = Inr x' \<and> \<not> running (rdr x') \<and> stopChan (rdr x')
           \<and> subscribers (rdr x') = [] \<and> length (chans x') = length (chans x)
           \<and> (\<forall>i < length (chans x). chans x' ! i =
                (if i \<in> set (subscribers (rdr x)) then (chans x ! i)\<lparr>chan_closed := True\<rparr>
                 else chans x ! i))
           \<and> wf_reader x'"
proof -
  from wf have d: "distinct (subscribers (rdr x))"
    and o: "\<forall>c \<in> set (subscribers (rdr x)). c < length (chans x) \<and> \<not> chan_closed (chans x ! c)"
    and r: "running (rdr x) \<longrightarrow> \<not> stopChan (rdr x)"
    by (simp_all add: wf_reader_def)
  from close_chans_Some [OF d o] obtain cs' where
    cs': "close_chans (chans x) (subscribers (rdr x)) = Some cs'" "length cs' = length (chans x)"
      "\<forall>i < length (chans x). cs' ! i =
         (if i \<in> set (subscribers (rdr x)) then (chans x ! i)\<lparr>chan_closed := True\<rparr> else chans x ! i)"
    by auto
  show ?thesis
    using run r cs' by (simp add: Stop_def wf_reader_def)
qed

lemma Stop_wf:
  assumes wf: "wf_reader x"
  shows "\<exists>x'. Stop x = Inr x' \<and> wf_reader x' \<and> length (chans x') = length (chans x)
           \<and> (\<forall>i < length (chans x). chan_buf (chans x' ! i) = chan_buf (chans x ! i))"
proof (cases "running (rdr x)")
  case True
  from Stop_running_wf [OF wf True] show ?thesis by auto
next
  case False
  with wf show ?thesis by (simp add: Stop_def)
qed

subsection \<open>One pass through the loop\<close>

lemma readLoop_iter_default:
  assumes "running (rdr (rw st))" and "\<not> ctx_Done env" and "\<not> stopChan (rdr (rw st))"
    and "Read (world st) (portName (rdr (rw st))) (sessionID (rdr (rw st)))
           (bufferSize (rdr (rw st))) (read_env env) = (w', res)"
  shows "readLoop_iter st env =
     (case res of
        Inr data \<Rightarrow>
          if data = [] then Inr (st\<lparr>world := w'\<rparr>, Continue, 0)
          else readLoop_emit st w' data None (now_Timestamp env)
      | Inl err \<Rightarrow>
          if is_Panic err then Inl err
          else readLoop_emit st w' [] (Some err) (now_Timestamp env))"
  using assms
  by (simp add: readLoop_iter_def Let_def split: sum.splits)

lemma readLoop_emit_error:
  assumes wf: "wf_reader (rw st)" and run: "running (rdr (rw st))"
  shows "\<exists>st'. world st' = w' \<and> sequence st' = sequence st + 1
     \<and> length (chans (rw st')) = length (chans (rw st))
     \<and> (\<forall>c \<in> set (subscribers (rdr (rw st))).
           chan_buf (chans (rw st') ! c) =
             (if length (chan_buf (chans (rw st) ! c)) < chan_cap
              then chan_buf (chans (rw st) ! c) @
                     [\<lparr>Data = d, Timestamp = now, Sequence = sequence st + 1, Error = Some err\<rparr>]
              else chan_buf (chans (rw st) ! c)))
     \<and> (if err = ErrPortClosed \<or> err = ErrInvalidSession
        then readLoop_emit st w' d (Some err) now = Inr (st', Return, 0)
           \<and> \<not> running (rdr (rw st')) \<and> stopChan (rdr (rw st'))
           \<and> subscribers (rdr (rw st')) = []
           \<and> (\<forall>c \<in> set (subscribers (rdr (rw st))). chan_closed (chans (rw st') ! c))
        else readLoop_emit st w' d (Some err) now = Inr (st', Continue, 10)
           \<and> rdr (rw st') = rdr (rw st) \<and> wf_reader (rw st'))"
proof -
  let ?ev = "\<lparr>Data = d, Timestamp = now, Sequence = sequence st + 1, Error = Some err\<rparr>"
  from wf have rng: "\<forall>c \<in> set (subscribers (rdr (rw st))). c < length (chans (rw st))"
    by (simp add: wf_reader_def)
  from broadcast_wf [OF wf, of ?ev] obtain x1 where
    b: "broadcast (rw st) ?ev = Inr x1" and r1: "rdr x1 = rdr (rw st)"
    and l1: "length (chans x1) = length (chans (rw st))"
    and c1: "\<forall>i < length (chans (rw st)). chans x1 ! i =
              (if i \<in> set (subscribers (rdr (rw st))) \<and> length (chan_buf (chans (rw st) ! i)) < chan_cap
               then (chans (rw st) ! i)\<lparr>chan_buf := chan_buf (chans (rw st) ! i) @ [?ev]\<rparr>
               else chans (rw st) ! i)"
    and wf1: "wf_reader x1"
    by blast
  have buf1: "\<forall>c \<in> set (subscribers (rdr (rw st))).
           chan_buf (chans x1 ! c) =
             (if length (chan_buf (chans (rw st) ! c)) < chan_cap
              then chan_buf (chans (rw st) ! c) @ [?ev]
              else chan_buf (chans (rw st) ! c))"
    using c1 rng by auto
  show ?thesis
  proof (cases "err = ErrPortClosed \<or> err = ErrInvalidSession")
    case False
    let ?st' = "\<lparr>world = w', rw = x1, sequence = sequence st + 1\<rparr>"
    have "readLoop_emit st w' d (Some err) now = Inr (?st', Continue, 10)"
      using False b by (simp add: readLoop_emit_def)
    with False r1 l1 buf1 wf1 show ?thesis
      by (intro exI [of _ ?st']) simp
  next
    case True
    from run r1 have run1: "running (rdr x1)" by simp
    from Stop_running_wf [OF wf1 run1] obtain x2 where
      s: "Stop x1 = Inr x2" and nr: "\<not> running (rdr x2)" and sc: "stopChan (rdr x2)"
      and ns: "subscribers (rdr x2) = []" and l2: "length (chans x2) = length (chans x1)"
      and c2: "\<forall>i < length (chans x1). chans x2 ! i =
                (if i \<in> set (subscribers (rdr x1)) then (chans x1 ! i)\<lparr>chan_closed := True\<rparr>
                 else chans x1 ! i)"
      by blast
    let ?st' = "\<lparr>world = w', rw = x2, sequence = sequence st + 1\<rparr>"
    have e: "readLoop_emit st w' d (Some err) now = Inr (?st', Return, 0)"
      using True b s by (auto simp: readLoop_emit_def)
    have buf2: "\<forall>c \<in> set (subscribers (rdr (rw st))).
           chan_buf (chans x2 ! c) =
             (if length (chan_buf (chans (rw st) ! c)) < chan_cap
              then chan_buf (chans (rw st) ! c) @ [?ev]
              else chan_buf (chans (rw st) ! c))"
      using c2 buf1 rng l1 r1 by auto
    have cl: "\<forall>c \<in> set (subscribers (rdr (rw st))). chan_closed (chans x2 ! c)"
      using c2 rng l1 r1 by auto
    from True e nr sc ns l1 l2 buf2 cl show ?thesis
      by (intro exI [of _ ?st']) simp
  qed
qed

text \<open>
  Claim C4. In a pass of the loop that reaches the \<open>Read\<close> (the Reader is
  running, nothing is cancelled) and in which \<open>Read\<close> returns an error, the
  error event, with the next sequence number, is sent to every subscriber
  whose channel has room. If the error is \<open>ErrPortClosed\<close> or
  \<open>ErrInvalidSession\<close>, the Reader then stops: \<open>readLoop\<close> returns, \<open>running\<close> is
  false, \<open>stopChan\<close> and every subscriber channel are closed and the subscriber
  list is empty. For every other error the pass sleeps 10 ms and the loop goes
  on with the next pass, the Reader still running with the same subscribers.
\<close>

theorem readLoop_error_classes:
  assumes wf: "wf_reader (rw st)" and run: "running (rdr (rw st))" and ctx: "\<not> ctx_Done env"
    and rd: "Read (world st) (portName (rdr (rw st))) (sessionID (rdr (rw st)))
               (bufferSize (rdr (rw st))) (read_env env) = (w', Inl err)"
    and np: "\<not> is_Panic err"
  shows "\<exists>st'. world st' = w' \<and> sequence st' = sequence st + 1
     \<and> length (chans (rw st')) = length (chans (rw st))
     \<and> (\<forall>c \<in> set (subscribers (rdr (rw st))).
           chan_buf (chans (rw st') ! c) =
             (if length (chan_buf (chans (rw st) ! c)) < chan_cap
              then chan_buf (chans (rw st) ! c) @
                     [\<lparr>Data = [], Timestamp = now_Timestamp env,
                       Sequence = sequence st + 1, Error = Some err\<rparr>]
              else chan_buf (chans (rw st) ! c)))
     \<and> (if err = ErrPortClosed \<or> err = ErrInvalidSession
        then readLoop_iter st env = Inr (st', Return, 0)
           \<and> readLoop st (env # envs) = Inr (st', Return)
           \<and> \<not> running (rdr (rw st')) \<and> stopChan (rdr (rw st'))
           \<and> subscribers (rdr (rw st')) = []
           \<and> (\<forall>c \<in> set (subscribers (rdr (rw st))). chan_closed (chans (rw st') ! c))
        else readLoop_iter st env = Inr (st', Continue, 10)
           \<and> readLoop st (env # envs) = readLoop st' envs
           \<and> rdr (rw st') = rdr (rw st) \<and> wf_reader (rw st'))"
proof -
  from wf run have ns: "\<not> stopChan (rdr (rw st))" by (simp add: wf_reader_def)
  have it: "readLoop_iter st env = readLoop_emit st w' [] (Some err) (now_Timestamp env)"
    using readLoop_iter_default [OF run ctx ns rd] np by simp
  from readLoop_emit_error [OF wf run, of w' "[]" "now_Timestamp env" err]
  obtain st' where st': "world st' = w'" "sequence st' = sequence st + 1"
     "length (chans (rw st')) = length (chans (rw st))"
     "\<forall>c \<in> set (subscribers (rdr (rw st))).
           chan_buf (chans (rw st') ! c) =
             (if length (chan_buf (chans (rw st) ! c)) < chan_cap
              then chan_buf (chans (rw st) ! c) @
                     [\<lparr>Data = [], Timestamp = now_Timestamp env,
                       Sequence = sequence st + 1, Error = Some err\<rparr>]
              else chan_buf (chans (rw st) ! c))"
     "if err = ErrPortClosed \<or> err = ErrInvalidSession
        then readLoop_emit st w' [] (Some err) (now_Timestamp env) = Inr (st', Return, 0)
           \<and> \<not> running (rdr (rw st')) \<and> stopChan (rdr (rw st'))
           \<and> subscribers (rdr (rw st')) = []
           \<and> (\<forall>c \<in> set (subscribers (rdr (rw st))). chan_closed (chans (rw st') ! c))
        else readLoop_emit st w' [] (Some err) (now_Timestamp env) = Inr (st', Continue, 10)
           \<and> rdr (rw st') = rdr (rw st) \<and> wf_reader (rw st')"
    by blast
  show ?thesis
  proof (cases "err = ErrPortClosed \<or> err = ErrInvalidSession")
    case True
    with st'(5) it have "readLoop_iter st env = Inr (st', Return, 0)" by simp
    with True st' show ?thesis by (intro exI [of _ st']) simp
  next
    case False
    with st'(5) it have "readLoop_iter st env = Inr (st', Continue, 10)" by simp
    with False st' show ?thesis by (intro exI [of _ st']) simp
  qed
qed

lemma ex_reader_eq:
  "ex_reader = \<lparr>rdr = \<lparr>portName = ''COM1'', sessionID = ''id-1'', bufferSize = 1024,
                        running = True, stopChan = False, subscribers = [0]\<rparr>,
                 chans = [\<lparr>chan_buf = [], chan_closed = False\<rparr>]\<rparr>"
  by (simp add: ex_reader_def Subscribe_def Start_def NewReader_def ValidateSession_ex_world
      make_chan_def)

lemma wf_reader_ex_reader: "wf_reader ex_reader"
  by (simp add: wf_reader_def ex_reader_eq)

lemma ex_reopened_sessions:
  "sessions (mgr ex_reopened) ''COM1'' = Some (Suc 0)" "ID (heap ex_reopened ! Suc 0) = ''id-2''"
  by (simp_all add: ex_reopened_def ex_world_eq ClosePort_def closeSessionLocked_def
      OpenPort_def Validate_def DefaultConfig_def ex_env_def)

lemma Read_ex_reopened:
  "Read ex_reopened ''COM1'' ''id-1'' n renv = (ex_reopened, Inl ErrInvalidSession)"
  by (simp add: Read_def ValidateSession_def ex_reopened_sessions)

theorem readLoop_error_classes_witness:
  "(\<exists>st'. readLoop_iter \<lparr>world = ex_reopened, rw = ex_reader, sequence = 0\<rparr>
             (ex_iter_env \<lparr>port_Read_data = [], port_Read_err = None, now_Read = 40\<rparr>)
           = Inr (st', Return, 0)
         \<and> \<not> running (rdr (rw st')) \<and> stopChan (rdr (rw st')) \<and> chan_closed (chans (rw st') ! 0)
         \<and> chan_buf (chans (rw st') ! 0) =
             [\<lparr>Data = [], Timestamp = 50, Sequence = 1, Error = Some ErrInvalidSession\<rparr>])
   \<and> (\<exists>st'. readLoop_iter \<lparr>world = ex_world False, rw = ex_reader, sequence = 0\<rparr>
             (ex_iter_env \<lparr>port_Read_data = [], port_Read_err = Some 7, now_Read = 40\<rparr>)
           = Inr (st', Continue, 10)
         \<and> running (rdr (rw st')) \<and> subscribers (rdr (rw st')) = [0]
         \<and> chan_buf (chans (rw st') ! 0) =
             [\<lparr>Data = [], Timestamp = 50, Sequence = 1, Error = Some (ErrHardware 7)\<rparr>])"
proof -
  let ?e1 = "ex_iter_env \<lparr>port_Read_data = [], port_Read_err = None, now_Read = 40\<rparr>"
  let ?e2 = "ex_iter_env \<lparr>port_Read_data = [], port_Read_err = Some 7, now_Read = 40\<rparr>"
  let ?s1 = "\<lparr>world = ex_reopened, rw = ex_reader, sequence = 0\<rparr>"
  let ?s2 = "\<lparr>world = ex_world False, rw = ex_reader, sequence = 0\<rparr>"
  have wf1: "wf_reader (rw ?s1)" and wf2: "wf_reader (rw ?s2)"
    by (simp_all add: wf_reader_ex_reader)
  have run1: "running (rdr (rw ?s1))" and run2: "running (rdr (rw ?s2))"
    by (simp_all add: ex_reader_eq)
  have ctx1: "\<not> ctx_Done ?e1" and ctx2: "\<not> ctx_Done ?e2"
    by (simp_all add: ex_iter_env_def)
  have rd1: "Read (world ?s1) (portName (rdr (rw ?s1))) (sessionID (rdr (rw ?s1)))
               (bufferSize (rdr (rw ?s1))) (read_env ?e1) = (ex_reopened, Inl ErrInvalidSession)"
    by (simp add: ex_reader_eq Read_ex_reopened)
  obtain w2 where rd2: "Read (world ?s2) (portName (rdr (rw ?s2))) (sessionID (rdr (rw ?s2)))
               (bufferSize (rdr (rw ?s2))) (read_env ?e2) = (w2, Inl (ErrHardware 7))"
    by (simp add: ex_reader_eq Read_def ValidateSession_ex_world ex_iter_env_def)
  have np1: "\<not> is_Panic ErrInvalidSession" and np2: "\<not> is_Panic (ErrHardware 7)"
    by simp_all
  have t1: "now_Timestamp ?e1 = 50" "now_Timestamp ?e2 = 50"
    by (simp_all add: ex_iter_env_def)
  have c: "length (chan_buf (chans ex_reader ! 0)) < chan_cap" "chan_buf (chans ex_reader ! 0) = []"
    "subscribers (rdr ex_reader) = [0]"
    by (simp_all add: ex_reader_eq chan_cap_def)
  from readLoop_error_classes [OF wf1 run1 ctx1 rd1 np1, of "[]"]
  have a: "\<exists>st'. readLoop_iter ?s1 ?e1 = Inr (st', Return, 0)
         \<and> \<not> running (rdr (rw st')) \<and> stopChan (rdr (rw st')) \<and> chan_closed (chans (rw st') ! 0)
         \<and> chan_buf (chans (rw st') ! 0) =
             [\<lparr>Data = [], Timestamp = 50, Sequence = 1, Error = Some ErrInvalidSession\<rparr>]"
    using c t1 by auto
  from readLoop_error_classes [OF wf2 run2 ctx2 rd2 np2, of "[]"]
  have b: "\<exists>st'. readLoop_iter ?s2 ?e2 = Inr (st', Continue, 10)
         \<and> running (rdr (rw st')) \<and> subscribers (rdr (rw st')) = [0]
         \<and> chan_buf (chans (rw st') ! 0) =
             [\<lparr>Data = [], Timestamp = 50, Sequence = 1, Error = Some (ErrHardware 7)\<rparr>]"
    using c t1 run2 by auto
  from a b show ?thesis by blast
qed

lemma readLoop_emit_data:
  assumes wf: "wf_reader (rw st)"
  shows "\<exists>st'. readLoop_emit st w' d None now = Inr (st', Continue, 0)
     \<and> world st' = w' \<and> sequence st' = sequence st + 1
     \<and> rdr (rw st') = rdr (rw st) \<and> wf_reader (rw st')
     \<and> length (chans (rw st')) = length (chans (rw st))
     \<and> (\<forall>i < length (chans (rw st)). chans (rw st') ! i =
           (if i \<in> set (subscribers (rdr (rw st))) \<and> length (chan_buf (chans (rw st) ! i)) < chan_cap
            then (chans (rw st) ! i)\<lparr>chan_buf := chan_buf (chans (rw st) ! i) @
                   [\<lparr>Data = d, Timestamp = now, Sequence = sequence st + 1, Error = None\<rparr>]\<rparr>
            else chans (rw st) ! i))"
proof -
  let ?ev = "\<lparr>Data = d, Timestamp = now, Sequence = sequence st + 1, Error = None\<rparr>"
  from broadcast_wf [OF wf, of ?ev] obtain x1 where
    b: "broadcast (rw st) ?ev = Inr x1" and r1: "rdr x1 = rdr (rw st)"
    and l1: "length (chans x1) = length (chans (rw st))"
    and c1: "\<forall>i < length (chans (rw st)). chans x1 ! i =
              (if i \<in> set (subscribers (rdr (rw st))) \<and> length (chan_buf (chans (rw st) ! i)) < chan_cap
               then (chans (rw st) ! i)\<lparr>chan_buf := chan_buf (chans (rw st) ! i) @ [?ev]\<rparr>
               else chans (rw st) ! i)"
    and wf1: "wf_reader x1"
    by blast
  let ?st' = "\<lparr>world = w', rw = x1, sequence = sequence st + 1\<rparr>"
  have "readLoop_emit st w' d None now = Inr (?st', Continue, 0)"
    using b by (simp add: readLoop_emit_def)
  with r1 l1 c1 wf1 show ?thesis by (intro exI [of _ ?st']) simp
qed

text \<open>
  Claim C6. A \<open>Read\<close> on a valid session whose driver call returns no bytes and
  no error succeeds with the empty slice. In a pass of the loop that reaches
  the \<open>Read\<close>: if \<open>Read\<close> succeeds with no bytes, the pass changes neither the
  Reader nor the sequence number (no event is sent) and the loop goes on
  without sleeping; if \<open>Read\<close> succeeds with bytes or fails with an error,
  exactly one event with the next sequence number, carrying those bytes or
  that error, is sent to every subscriber whose channel has room.
\<close>

theorem zero_length_read_is_no_event:
  assumes wf: "wf_reader (rw st)" and run: "running (rdr (rw st))" and ctx: "\<not> ctx_Done env"
    and rd: "Read (world st) (portName (rdr (rw st))) (sessionID (rdr (rw st)))
               (bufferSize (rdr (rw st))) (read_env env) = (w', res)"
    and np: "\<forall>e. res = Inl e \<longrightarrow> \<not> is_Panic e"
  shows "(ValidateSession (world st) (portName (rdr (rw st))) (sessionID (rdr (rw st))) = Inr a
          \<and> 0 \<le> bufferSize (rdr (rw st))
          \<and> port_Read_err (read_env env) = None \<and> port_Read_data (read_env env) = []
          \<longrightarrow> res = Inr [])
     \<and> (res = Inr [] \<longrightarrow> readLoop_iter st env = Inr (st\<lparr>world := w'\<rparr>, Continue, 0))
     \<and> (res \<noteq> Inr [] \<longrightarrow>
          (\<exists>st' f ms. readLoop_iter st env = Inr (st', f, ms)
             \<and> sequence st' = sequence st + 1
             \<and> (\<forall>c \<in> set (subscribers (rdr (rw st))).
                  chan_buf (chans (rw st') ! c) =
                    (if length (chan_buf (chans (rw st) ! c)) < chan_cap
                     then chan_buf (chans (rw st) ! c) @
                       [\<lparr>Data = (case res of Inr data \<Rightarrow> data | Inl _ \<Rightarrow> []),
                         Timestamp = now_Timestamp env,
                         Sequence = sequence st + 1,
                         Error = (case res of Inr _ \<Rightarrow> None | Inl err \<Rightarrow> Some err)\<rparr>]
                     else chan_buf (chans (rw st) ! c)))))"
proof (intro conjI impI)
  assume "ValidateSession (world st) (portName (rdr (rw st))) (sessionID (rdr (rw st))) = Inr a
          \<and> 0 \<le> bufferSize (rdr (rw st))
          \<and> port_Read_err (read_env env) = None \<and> port_Read_data (read_env env) = []"
  with rd show "res = Inr []" by (auto simp: Read_def Let_def)
next
  from wf run have ns: "\<not> stopChan (rdr (rw st))" by (simp add: wf_reader_def)
  note it = readLoop_iter_default [OF run ctx ns rd]
  {
    assume "res = Inr []"
    with it show "readLoop_iter st env = Inr (st\<lparr>world := w'\<rparr>, Continue, 0)" by simp
  }
  assume ne: "res \<noteq> Inr []"
  from wf have rng: "\<forall>c \<in> set (subscribers (rdr (rw st))). c < length (chans (rw st))"
    by (simp add: wf_reader_def)
  show "\<exists>st' f ms. readLoop_iter st env = Inr (st', f, ms)
             \<and> sequence st' = sequence st + 1
             \<and> (\<forall>c \<in> set (subscribers (rdr (rw st))).
                  chan_buf (chans (rw st') ! c) =
                    (if length (chan_buf (chans (rw st) ! c)) < chan_cap
                     then chan_buf (chans (rw st) ! c) @
                       [\<lparr>Data = (case res of Inr data \<Rightarrow> data | Inl _ \<Rightarrow> []),
                         Timestamp = now_Timestamp env,
                         Sequence = sequence st + 1,
                         Error = (case res of Inr _ \<Rightarrow> None | Inl err \<Rightarrow> Some err)\<rparr>]
                     else chan_buf (chans (rw st) ! c)))"
  proof (cases res)
    case (Inr d)
    with ne have d: "d \<noteq> []" by simp
    from readLoop_emit_data [OF wf, of w' d "now_Timestamp env"] obtain st' where
      "readLoop_emit st w' d None (now_Timestamp env) = Inr (st', Continue, 0)"
      "sequence st' = sequence st + 1"
      "\<forall>i < length (chans (rw st)). chans (rw st') ! i =
           (if i \<in> set (subscribers (rdr (rw st))) \<and> length (chan_buf (chans (rw st) ! i)) < chan_cap
            then (chans (rw st) ! i)\<lparr>chan_buf := chan_buf (chans (rw st) ! i) @
                   [\<lparr>Data = d, Timestamp = now_Timestamp env, Sequence = sequence st + 1, Error = None\<rparr>]\<rparr>
            else chans (rw st) ! i)"
      by blast
    with it Inr d rng show ?thesis
      by (intro exI [of _ st'] exI [of _ Continue] exI [of _ 0]) auto
  next
    case (Inl err)
    with np have npe: "\<not> is_Panic err" by simp
    from readLoop_emit_error [OF wf run, of w' "[]" "now_Timestamp env" err] obtain st' where
      st': "sequence st' = sequence st + 1"
      "\<forall>c \<in> set (subscribers (rdr (rw st))).
           chan_buf (chans (rw st') ! c) =
             (if length (chan_buf (chans (rw st) ! c)) < chan_cap
              then chan_buf (chans (rw st) ! c) @
                     [\<lparr>Data = [], Timestamp = now_Timestamp env,
                       Sequence = sequence st + 1, Error = Some err\<rparr>]
              else chan_buf (chans (rw st) ! c))"
      "if err = ErrPortClosed \<or> err = ErrInvalidSession
        then readLoop_emit st w' [] (Some err) (now_Timestamp env) = Inr (st', Return, 0)
           \<and> \<not> running (rdr (rw st')) \<and> stopChan (rdr (rw st'))
           \<and> subscribers (rdr (rw st')) = []
           \<and> (\<forall>c \<in> set (subscribers (rdr (rw st))). chan_closed (chans (rw st') ! c))
        else readLoop_emit st w' [] (Some err) (now_Timestamp env) = Inr (st', Continue, 10)
           \<and> rdr (rw st') = rdr (rw st) \<and> wf_reader (rw st')"
      by blast
    from st'(3) obtain f ms where
      "readLoop_emit st w' [] (Some err) (now_Timestamp env) = Inr (st', f, ms)"
      by (auto split: if_splits)
    with it Inl npe st'(1,2) show ?thesis
      by (intro exI [of _ st'] exI [of _ f] exI [of _ ms]) simp
  qed
qed

theorem zero_length_read_is_no_event_witness:
  "(\<exists>w'. Read (ex_world False) ''COM1'' ''id-1'' 1024
            \<lparr>port_Read_data = [], port_Read_err = None, now_Read = 40\<rparr> = (w', Inr [])
        \<and> readLoop_iter \<lparr>world = ex_world False, rw = ex_reader, sequence = 0\<rparr>
            (ex_iter_env \<lparr>port_Read_data = [], port_Read_err = None, now_Read = 40\<rparr>)
          = Inr (\<lparr>world = w', rw = ex_reader, sequence = 0\<rparr>, Continue, 0))
   \<and> (\<exists>st' f ms. readLoop_iter \<lparr>world = ex_world False, rw = ex_reader, sequence = 0\<rparr>
            (ex_iter_env \<lparr>port_Read_data = [65], port_Read_err = None, now_Read = 40\<rparr>)
          = Inr (st', f, ms)
        \<and> sequence st' = 1
        \<and> chan_buf (chans (rw st') ! 0) =
            [\<lparr>Data = [65], Timestamp = 50, Sequence = 1, Error = None\<rparr>])"
proof -
  let ?r0 = "\<lparr>port_Read_data = [], port_Read_err = None, now_Read = 40\<rparr>"
  let ?r1 = "\<lparr>port_Read_data = [65], port_Read_err = None, now_Read = 40\<rparr>"
  let ?s = "\<lparr>world = ex_world False, rw = ex_reader, sequence = 0\<rparr>"
  have wf: "wf_reader (rw ?s)" by (simp add: wf_reader_ex_reader)
  have run: "running (rdr (rw ?s))" by (simp add: ex_reader_eq)
  have ctx: "\<not> ctx_Done (ex_iter_env ?r0)" "\<not> ctx_Done (ex_iter_env ?r1)"
    by (simp_all add: ex_iter_env_def)
  obtain w0 where rd0: "Read (world ?s) (portName (rdr (rw ?s))) (sessionID (rdr (rw ?s)))
               (bufferSize (rdr (rw ?s))) (read_env (ex_iter_env ?r0)) = (w0, Inr [])"
    by (simp add: ex_reader_eq Read_def ValidateSession_ex_world ex_iter_env_def)
  obtain w1 where rd1: "Read (world ?s) (portName (rdr (rw ?s))) (sessionID (rdr (rw ?s)))
               (bufferSize (rdr (rw ?s))) (read_env (ex_iter_env ?r1)) = (w1, Inr [65])"
    by (simp add: ex_reader_eq Read_def ValidateSession_ex_world ex_iter_env_def)
  have np: "\<forall>e. (Inr [] :: error + byte list) = Inl e \<longrightarrow> \<not> is_Panic e"
    "\<forall>e. (Inr [65] :: error + byte list) = Inl e \<longrightarrow> \<not> is_Panic e"
    by simp_all
  have c: "length (chan_buf (chans ex_reader ! 0)) < chan_cap" "chan_buf (chans ex_reader ! 0) = []"
    "subscribers (rdr ex_reader) = [0]"
    by (simp_all add: ex_reader_eq chan_cap_def)
  have rd0': "Read (ex_world False) ''COM1'' ''id-1'' 1024 ?r0 = (w0, Inr [])"
    using rd0 by (simp add: ex_reader_eq ex_iter_env_def)
  from zero_length_read_is_no_event [OF wf run ctx(1) rd0 np(1), of 0]
  have "readLoop_iter ?s (ex_iter_env ?r0) = Inr (\<lparr>world = w0, rw = ex_reader, sequence = 0\<rparr>, Continue, 0)"
    by simp
  with rd0' have a: "\<exists>w'. Read (ex_world False) ''COM1'' ''id-1'' 1024 ?r0 = (w', Inr [])
        \<and> readLoop_iter ?s (ex_iter_env ?r0)
          = Inr (\<lparr>world = w', rw = ex_reader, sequence = 0\<rparr>, Continue, 0)"
    by blast
  from zero_length_read_is_no_event [OF wf run ctx(2) rd1 np(2), of 0]
  have b: "\<exists>st' f ms. readLoop_iter ?s (ex_iter_env ?r1) = Inr (st', f, ms)
        \<and> sequence st' = 1
        \<and> chan_buf (chans (rw st') ! 0) =
            [\<lparr>Data = [65], Timestamp = 50, Sequence = 1, Error = None\<rparr>]"
    using c by (auto simp: ex_iter_env_def)
  from a b show ?thesis by blast
qed

subsection \<open>Sequence numbers along a run\<close>

lemma readLoop_iter_effect:
  assumes wf: "wf_reader (rw st)" and it: "readLoop_iter st env = Inr (st', f, ms)"
  shows "wf_reader (rw st') \<and> length (chans (rw st')) = length (chans (rw st))
     \<and> ((sequence st' = sequence st
           \<and> (\<forall>i < length (chans (rw st)).
                chan_buf (chans (rw st') ! i) = chan_buf (chans (rw st) ! i)))
        \<or> (sequence st' = sequence st + 1
           \<and> (\<exists>ev. Sequence ev = sequence st + 1
                \<and> (\<forall>i < length (chans (rw st)).
                      chan_buf (chans (rw st') ! i) = chan_buf (chans (rw st) ! i)
                    \<or> chan_buf (chans (rw st') ! i) = chan_buf (chans (rw st) ! i) @ [ev]))))"
proof -
  let ?r = "rdr (rw st)"
  consider (stopped) "\<not> running ?r \<or> (\<not> (ctx_Done env \<and> (\<not> stopChan ?r \<or> select_ctx_first env)) \<and> stopChan ?r)"
    | (ctx) "running ?r" "ctx_Done env \<and> (\<not> stopChan ?r \<or> select_ctx_first env)"
    | (read) "running ?r" "\<not> ctx_Done env" "\<not> stopChan ?r"
    by blast
  then show ?thesis
  proof cases
    case stopped
    with it have "st' = st" by (auto simp: readLoop_iter_def Let_def split: if_splits)
    with wf show ?thesis by simp
  next
    case ctx
    from Stop_wf [OF wf] obtain x' where
      x': "Stop (rw st) = Inr x'" "wf_reader x'" "length (chans x') = length (chans (rw st))"
        "\<forall>i < length (chans (rw st)). chan_buf (chans x' ! i) = chan_buf (chans (rw st) ! i)"
      by blast
    with it ctx have "st' = st\<lparr>rw := x'\<rparr>" by (auto simp: readLoop_iter_def Let_def)
    with x' show ?thesis by simp
  next
    case read
    obtain w' res where rd: "Read (world st) (portName ?r) (sessionID ?r) (bufferSize ?r)
       (read_env env) = (w', res)"
      by (cases "Read (world st) (portName ?r) (sessionID ?r) (bufferSize ?r) (read_env env)")
    note d = readLoop_iter_default [OF read rd]
    show ?thesis
    proof (cases res)
      case (Inr data)
      show ?thesis
      proof (cases "data = []")
        case True
        with d it Inr have "st' = st\<lparr>world := w'\<rparr>" by simp
        with wf show ?thesis by simp
      next
        case False
        from readLoop_emit_data [OF wf, of w' data "now_Timestamp env"] obtain st2 where
          e: "readLoop_emit st w' data None (now_Timestamp env) = Inr (st2, Continue, 0)"
          and p: "sequence st2 = sequence st + 1" "wf_reader (rw st2)"
            "length (chans (rw st2)) = length (chans (rw st))"
            "\<forall>i < length (chans (rw st)). chans (rw st2) ! i =
              (if i \<in> set (subscribers (rdr (rw st))) \<and> length (chan_buf (chans (rw st) ! i)) < chan_cap
               then (chans (rw st) ! i)\<lparr>chan_buf := chan_buf (chans (rw st) ! i) @
                   [\<lparr>Data = data, Timestamp = now_Timestamp env,
                     Sequence = sequence st + 1, Error = None\<rparr>]\<rparr>
               else chans (rw st) ! i)"
          by blast
        from d it Inr False e have "st' = st2" by simp
        with p show ?thesis
          by (intro conjI disjI2 exI [of _ "\<lparr>Data = data, Timestamp = now_Timestamp env,
                     Sequence = sequence st + 1, Error = None\<rparr>"]) auto
      qed
    next
      case (Inl err)
      with d it have np: "\<not> is_Panic err"
        and e: "readLoop_emit st w' [] (Some err) (now_Timestamp env) = Inr (st', f, ms)"
        by (auto split: if_splits)
      let ?ev = "\<lparr>Data = [], Timestamp = now_Timestamp env, Sequence = sequence st + 1,
                  Error = Some err\<rparr>"
      from broadcast_wf [OF wf, of ?ev] obtain x1 where
        b: "broadcast (rw st) ?ev = Inr x1" and r1: "rdr x1 = rdr (rw st)"
        and l1: "length (chans x1) = length (chans (rw st))"
        and c1: "\<forall>i < length (chans (rw st)). chans x1 ! i =
              (if i \<in> set (subscribers (rdr (rw st))) \<and> length (chan_buf (chans (rw st) ! i)) < chan_cap
               then (chans (rw st) ! i)\<lparr>chan_buf := chan_buf (chans (rw st) ! i) @ [?ev]\<rparr>
               else chans (rw st) ! i)"
        and wf1: "wf_reader x1"
        by blast
      from Stop_wf [OF wf1] obtain x2 where
        x2: "Stop x1 = Inr x2" "wf_reader x2" "length (chans x2) = length (chans x1)"
          "\<forall>i < length (chans x1). chan_buf (chans x2 ! i) = chan_buf (chans x1 ! i)"
        by blast
      have bufs: "\<forall>i < length (chans (rw st)).
                      chan_buf (chans x1 ! i) = chan_buf (chans (rw st) ! i)
                    \<or> chan_buf (chans x1 ! i) = chan_buf (chans (rw st) ! i) @ [?ev]"
        using c1 by auto
      from e b x2(1) have "st' = \<lparr>world = w', rw = x1, sequence = sequence st + 1\<rparr>
          \<or> st' = \<lparr>world = w', rw = x2, sequence = sequence st + 1\<rparr>"
        by (auto simp: readLoop_emit_def split: if_splits)
      then show ?thesis
      proof
        assume "st' = \<lparr>world = w', rw = x1, sequence = sequence st + 1\<rparr>"
        with wf1 l1 bufs show ?thesis
          by (intro conjI disjI2 exI [of _ ?ev]) auto
      next
        assume "st' = \<lparr>world = w', rw = x2, sequence = sequence st + 1\<rparr>"
        with x2 l1 bufs show ?thesis
          by (intro conjI disjI2 exI [of _ ?ev]) auto
      qed
    qed
  qed
qed

lemma with_rw_simps [simp]:
  "loop (with_rw s x) = (loop s)\<lparr>rw := x\<rparr>"
  "received (with_rw s x) = received s"
  "alive (with_rw s x) = alive s"
  by (simp_all add: with_rw_def)

lemma received_on_simps [simp]:
  "received_on (s\<lparr>loop := l\<rparr>) c = received_on s c"
  "received_on (s\<lparr>alive := b\<rparr>) c = received_on s c"
  "received_on (with_rw s x) c = received_on s c"
  "received_on (s\<lparr>received := received s @ [(c', ev)]\<rparr>) c =
     received_on s c @ (if c' = c then [ev] else [])"
  by (simp_all add: received_on_def)

lemma received_on_empty:
  "\<forall>x \<in> set (received s). fst x \<noteq> c \<Longrightarrow> received_on s c = []"
  by (simp add: received_on_def filter_empty_conv)

lemma positions_extend:
  assumes "sorted_wrt (<) ps" and "\<forall>i \<in> set ps. 0 < i \<and> i \<le> k"
    and "map Sequence obs = map of_nat ps"
    and "obs' = obs \<or> obs' = obs @ [ev]" and "Sequence ev = of_nat (Suc k)"
  shows "\<exists>ps'. sorted_wrt (<) ps' \<and> (\<forall>i \<in> set ps'. 0 < i \<and> i \<le> Suc k)
           \<and> map Sequence obs' = map of_nat ps'"
  using assms(4)
proof
  assume "obs' = obs"
  with assms(1-3) show ?thesis by (intro exI [of _ ps]) auto
next
  assume o: "obs' = obs @ [ev]"
  have "sorted_wrt (<) (ps @ [Suc k])"
    using assms(1,2) by (auto simp: sorted_wrt_append less_Suc_eq_le)
  moreover have "\<forall>i \<in> set (ps @ [Suc k]). 0 < i \<and> i \<le> Suc k"
    using assms(2) by auto
  moreover have "map Sequence obs' = map of_nat (ps @ [Suc k])"
    using o assms(3,5) by simp
  ultimately show ?thesis by blast
qed

lemma seq_invI:
  assumes "wf_reader (rw (loop s))" and "sequence (loop s) = of_nat k"
    and "\<And>x. x \<in> set (received s) \<Longrightarrow> fst x < length (chans (rw (loop s)))"
    and "\<And>c. c < length (chans (rw (loop s))) \<Longrightarrow>
          \<exists>ps. sorted_wrt (<) ps \<and> (\<forall>i \<in> set ps. 0 < i \<and> i \<le> k)
             \<and> map Sequence (observed s c) = map of_nat ps"
  shows "seq_inv s k"
  using assms unfolding seq_inv_def by blast

lemma seq_invD:
  assumes "seq_inv s k"
  shows "wf_reader (rw (loop s))" and "sequence (loop s) = of_nat k"
    and "x \<in> set (received s) \<Longrightarrow> fst x < length (chans (rw (loop s)))"
    and "c < length (chans (rw (loop s))) \<Longrightarrow>
          \<exists>ps. sorted_wrt (<) ps \<and> (\<forall>i \<in> set ps. 0 < i \<and> i \<le> k)
             \<and> map Sequence (observed s c) = map of_nat ps"
  using assms unfolding seq_inv_def by blast+

text \<open>Changes that leave the counter, every channel's buffer and the log alone.\<close>

lemma seq_inv_same_bufs:
  assumes inv: "seq_inv s k"
    and wf: "wf_reader (rw (loop s'))"
    and sq: "sequence (loop s') = sequence (loop s)"
    and rc: "received s' = received s"
    and ln: "length (chans (rw (loop s'))) = length (chans (rw (loop s)))"
    and bf: "\<forall>i < length (chans (rw (loop s))).
               chan_buf (chans (rw (loop s')) ! i) = chan_buf (chans (rw (loop s)) ! i)"
  shows "seq_inv s' k"
proof (rule seq_invI)
  show "wf_reader (rw (loop s'))" by (rule wf)
  show "sequence (loop s') = of_nat k" using seq_invD(2) [OF inv] sq by simp
  show "fst x < length (chans (rw (loop s')))" if "x \<in> set (received s')" for x
    using that seq_invD(3) [OF inv, of x] rc ln by simp
  fix c assume c: "c < length (chans (rw (loop s')))"
  with ln have c': "c < length (chans (rw (loop s)))" by simp
  have "observed s' c = observed s c"
    using bf c' rc by (simp add: observed_def received_on_def)
  with seq_invD(4) [OF inv c']
  show "\<exists>ps. sorted_wrt (<) ps \<and> (\<forall>i \<in> set ps. 0 < i \<and> i \<le> k)
             \<and> map Sequence (observed s' c) = map of_nat ps"
    by simp
qed

lemma seq_inv_Iterate:
  assumes inv: "seq_inv s k" and st: "step s (Iterate env) = Inr s'"
  shows "seq_inv s' (k + (if sequence (loop s') = sequence (loop s) then 0 else 1))"
proof (cases "alive s")
  case False
  with st have "s' = s" by simp
  with inv show ?thesis by simp
next
  case True
  with st obtain st' f ms where
    it: "readLoop_iter (loop s) env = Inr (st', f, ms)"
    and s': "s' = s\<lparr>loop := st', alive := (f = Continue)\<rparr>"
    by (auto split: sum.splits)
  note wf = seq_invD(1) [OF inv]
  from readLoop_iter_effect [OF wf it]
  have wf': "wf_reader (rw st')" and ln: "length (chans (rw st')) = length (chans (rw (loop s)))"
    and eff: "(sequence st' = sequence (loop s)
           \<and> (\<forall>i < length (chans (rw (loop s))).
                chan_buf (chans (rw st') ! i) = chan_buf (chans (rw (loop s)) ! i)))
        \<or> (sequence st' = sequence (loop s) + 1
           \<and> (\<exists>ev. Sequence ev = sequence (loop s) + 1
                \<and> (\<forall>i < length (chans (rw (loop s))).
                      chan_buf (chans (rw st') ! i) = chan_buf (chans (rw (loop s)) ! i)
                    \<or> chan_buf (chans (rw st') ! i) = chan_buf (chans (rw (loop s)) ! i) @ [ev])))"
    by blast+
  from eff show ?thesis
  proof (elim disjE conjE exE)
    assume sq: "sequence st' = sequence (loop s)"
      and "\<forall>i < length (chans (rw (loop s))).
                chan_buf (chans (rw st') ! i) = chan_buf (chans (rw (loop s)) ! i)"
    then have "seq_inv s' k"
      using wf' ln s' by (intro seq_inv_same_bufs [OF inv]) simp_all
    with sq s' show ?thesis by simp
  next
    fix ev
    assume sq: "sequence st' = sequence (loop s) + 1"
      and ev: "Sequence ev = sequence (loop s) + 1"
      and bf: "\<forall>i < length (chans (rw (loop s))).
                      chan_buf (chans (rw st') ! i) = chan_buf (chans (rw (loop s)) ! i)
                    \<or> chan_buf (chans (rw st') ! i) = chan_buf (chans (rw (loop s)) ! i) @ [ev]"
    from sq s' have changed: "sequence (loop s') \<noteq> sequence (loop s)" by simp
    have u: "sequence (loop s) + 1 = of_nat (Suc k)"
      using seq_invD(2) [OF inv] by simp
    have "seq_inv s' (Suc k)"
    proof (rule seq_invI)
      show "wf_reader (rw (loop s'))" using wf' s' by simp
      show "sequence (loop s') = of_nat (Suc k)" using sq u s' by simp
      show "fst x < length (chans (rw (loop s')))" if "x \<in> set (received s')" for x
        using that seq_invD(3) [OF inv, of x] ln s' by simp
      fix c assume "c < length (chans (rw (loop s')))"
      with ln s' have c: "c < length (chans (rw (loop s)))" by simp
      from bf c have o: "observed s' c = observed s c \<or> observed s' c = observed s c @ [ev]"
        by (auto simp: observed_def s')
      from seq_invD(4) [OF inv c] obtain ps where
        ps: "sorted_wrt (<) ps" "\<forall>i \<in> set ps. 0 < i \<and> i \<le> k"
          "map Sequence (observed s c) = map of_nat ps"
        by blast
      from ev u have "Sequence ev = of_nat (Suc k)" by simp
      from positions_extend [OF ps o this]
      show "\<exists>ps. sorted_wrt (<) ps \<and> (\<forall>i \<in> set ps. 0 < i \<and> i \<le> Suc k)
             \<and> map Sequence (observed s' c) = map of_nat ps" .
    qed
    with changed show ?thesis by simp
  qed
qed

lemma seq_inv_Receive:
  assumes inv: "seq_inv s k" and st: "step s (Receive c) = Inr s'"
  shows "seq_inv s' k"
proof -
  let ?cs = "chans (rw (loop s))"
  note wf = seq_invD(1) [OF inv]
  show ?thesis
  proof (cases "c < length ?cs \<and> chan_buf (?cs ! c) \<noteq> []")
    case False
    with st have "s' = s" by (auto simp: Let_def split: list.splits)
    with inv show ?thesis by simp
  next
    case True
    then obtain ev rest where c: "c < length ?cs" and b: "chan_buf (?cs ! c) = ev # rest"
      by (cases "chan_buf (?cs ! c)") auto
    let ?rw = "(rw (loop s))\<lparr>chans := ?cs[c := (?cs ! c)\<lparr>chan_buf := rest\<rparr>]\<rparr>"
    from st c b have s': "s' = (with_rw s ?rw)\<lparr>received := received s @ [(c, ev)]\<rparr>"
      by (simp add: Let_def)
    have rc: "received_on s' i = received_on s i @ (if c = i then [ev] else [])" for i
      unfolding s' by (simp add: received_on_def)
    show ?thesis
    proof (rule seq_invI)
      show "wf_reader (rw (loop s'))"
        using wf c unfolding s' wf_reader_def by (auto simp: nth_list_update)
      show "sequence (loop s') = of_nat k" using seq_invD(2) [OF inv] by (simp add: s')
      show "fst x < length (chans (rw (loop s')))" if "x \<in> set (received s')" for x
        using that seq_invD(3) [OF inv, of x] c by (auto simp: s')
      fix i assume "i < length (chans (rw (loop s')))"
      then have i: "i < length ?cs" by (simp add: s')
      have "observed s' i = observed s i"
        using b c i by (auto simp: observed_def rc) (simp_all add: s' nth_list_update)
      with seq_invD(4) [OF inv i]
      show "\<exists>ps. sorted_wrt (<) ps \<and> (\<forall>i \<in> set ps. 0 < i \<and> i \<le> k)
             \<and> map Sequence (observed s' i) = map of_nat ps"
        by simp
    qed
  qed
qed

lemma seq_inv_DoSubscribe:
  assumes inv: "seq_inv s k" and st: "step s DoSubscribe = Inr s'"
  shows "seq_inv s' k"
proof -
  let ?cs = "chans (rw (loop s))"
  let ?rw = "(rw (loop s))\<lparr>chans := ?cs @ [make_chan],
         rdr := (rdr (rw (loop s)))\<lparr>subscribers := subscribers (rdr (rw (loop s))) @ [length ?cs]\<rparr>\<rparr>"
  from st have s': "s' = with_rw s ?rw" by (auto simp: Subscribe_def)
  note wf = seq_invD(1) [OF inv]
  show ?thesis
  proof (rule seq_invI)
    show "wf_reader (rw (loop s'))"
      using wf unfolding s' wf_reader_def by (auto simp: nth_append make_chan_def)
    show "sequence (loop s') = of_nat k" using seq_invD(2) [OF inv] by (simp add: s')
    show "fst x < length (chans (rw (loop s')))" if "x \<in> set (received s')" for x
      using that seq_invD(3) [OF inv, of x] by (auto simp: s')
    fix i assume "i < length (chans (rw (loop s')))"
    then have "i < length ?cs \<or> i = length ?cs" by (auto simp: s')
    then show "\<exists>ps. sorted_wrt (<) ps \<and> (\<forall>i \<in> set ps. 0 < i \<and> i \<le> k)
             \<and> map Sequence (observed s' i) = map of_nat ps"
    proof
      assume i: "i < length ?cs"
      then have "observed s' i = observed s i" by (simp add: observed_def s' nth_append)
      with seq_invD(4) [OF inv i] show ?thesis by simp
    next
      assume i: "i = length ?cs"
      have "\<forall>x \<in> set (received s). fst x \<noteq> i"
        using seq_invD(3) [OF inv] i by fastforce
      then have "received_on s i = []" by (rule received_on_empty)
      then have "observed s' i = []" using i by (simp add: observed_def s' make_chan_def)
      then show ?thesis by (intro exI [of _ "[]"]) simp
    qed
  qed
qed

lemma seq_inv_DoUnsubscribe:
  assumes inv: "seq_inv s k" and st: "step s (DoUnsubscribe c) = Inr s'"
  shows "seq_inv s' k"
proof -
  let ?x = "rw (loop s)"
  note wf = seq_invD(1) [OF inv]
  from st obtain x' where u: "Unsubscribe ?x c = Inr x'" and s': "s' = with_rw s x'"
    by (auto split: sum.splits)
  have "wf_reader x' \<and> length (chans x') = length (chans ?x)
     \<and> (\<forall>i < length (chans ?x). chan_buf (chans x' ! i) = chan_buf (chans ?x ! i))"
  proof (cases "c \<in> set (subscribers (rdr ?x))")
    case False
    with u wf show ?thesis by (simp add: Unsubscribe_def)
  next
    case True
    with u have x': "x' = \<lparr>rdr = (rdr ?x)\<lparr>subscribers := remove1 c (subscribers (rdr ?x))\<rparr>,
                   chans = (chans ?x)[c := (chans ?x ! c)\<lparr>chan_closed := True\<rparr>]\<rparr>"
      by (auto simp: Unsubscribe_def split: if_splits)
    from wf have d: "distinct (subscribers (rdr ?x))" by (simp add: wf_reader_def)
    have "wf_reader x'"
      using wf d unfolding x' wf_reader_def by (auto simp: nth_list_update)
    moreover have "chan_buf (chans x' ! i) = chan_buf (chans ?x ! i)"
      if "i < length (chans ?x)" for i
      using that unfolding x' by (cases "i = c") simp_all
    ultimately show ?thesis by (simp add: x')
  qed
  then show ?thesis
    using s' by (intro seq_inv_same_bufs [OF inv]) simp_all
qed

lemma seq_inv_DoStop:
  assumes inv: "seq_inv s k" and st: "step s DoStop = Inr s'"
  shows "seq_inv s' k"
proof -
  from st obtain x' where u: "Stop (rw (loop s)) = Inr x'" and s': "s' = with_rw s x'"
    by (auto split: sum.splits)
  from Stop_wf [OF seq_invD(1) [OF inv]] u
  have "wf_reader x' \<and> length (chans x') = length (chans (rw (loop s)))
     \<and> (\<forall>i < length (chans (rw (loop s))).
           chan_buf (chans x' ! i) = chan_buf (chans (rw (loop s)) ! i))"
    by auto
  then show ?thesis
    using s' by (intro seq_inv_same_bufs [OF inv]) simp_all
qed

lemma seq_inv_DoCall:
  assumes inv: "seq_inv s k" and st: "step s (DoCall c) = Inr s'"
  shows "seq_inv s' k"
proof -
  from st have s': "s' = s\<lparr>loop := (loop s)\<lparr>world := do_call (world (loop s)) c\<rparr>\<rparr>" by simp
  show ?thesis
    using seq_invD(1) [OF inv] by (intro seq_inv_same_bufs [OF inv]) (simp_all add: s')
qed

lemma iterations_simps [simp]:
  "iterations [] = 0"
  "iterations (Iterate env # as) = Suc (iterations as)"
  "iterations (Receive c # as) = iterations as"
  "iterations (DoSubscribe # as) = iterations as"
  "iterations (DoUnsubscribe c # as) = iterations as"
  "iterations (DoStop # as) = iterations as"
  "iterations (DoCall cl # as) = iterations as"
  by (simp_all add: iterations_def)

lemma seq_inv_step:
  assumes inv: "seq_inv s k" and st: "step s a = Inr s'"
  shows "seq_inv s' (k + (if sequence (loop s') = sequence (loop s) then 0 else 1))"
proof -
  have same: "seq_inv s' k \<Longrightarrow> ?thesis"
    using seq_invD(2) [OF inv] seq_invD(2) [of s' k] by simp
  show ?thesis
  proof (cases a)
    case (Iterate env)
    with seq_inv_Iterate [OF inv st [unfolded Iterate]] show ?thesis by simp
  next
    case (Receive c)
    with seq_inv_Receive [OF inv st [unfolded Receive]] same show ?thesis by simp
  next
    case DoSubscribe
    with seq_inv_DoSubscribe [OF inv st [unfolded DoSubscribe]] same show ?thesis by simp
  next
    case (DoUnsubscribe c)
    with seq_inv_DoUnsubscribe [OF inv st [unfolded DoUnsubscribe]] same show ?thesis by simp
  next
    case DoStop
    with seq_inv_DoStop [OF inv st [unfolded DoStop]] same show ?thesis by simp
  next
    case (DoCall c)
    with seq_inv_DoCall [OF inv st [unfolded DoCall]] same show ?thesis by simp
  qed
qed

lemma seq_inv_run:
  "seq_inv s k \<Longrightarrow> run s as = Inr s' \<Longrightarrow> seq_inv s' (k + emitted s as)"
proof (induction as arbitrary: s k)
  case Nil
  then show ?case by simp
next
  case (Cons a as)
  from Cons.prems(2) obtain s1 where s1: "step s a = Inr s1" and r: "run s1 as = Inr s'"
    by (auto split: sum.splits)
  from Cons.IH [OF seq_inv_step [OF Cons.prems(1) s1] r]
  show ?case by (simp add: s1 add.assoc)
qed

lemma seq_inv_started: "seq_inv (started w pn sid bs) 0"
  by (auto simp: seq_inv_def started_def Start_def NewReader_def wf_reader_def
      split: sum.splits)

lemma step_keeps_sequence:
  assumes "step s a = Inr s'" and "\<And>env. a \<noteq> Iterate env"
  shows "sequence (loop s') = sequence (loop s)"
  using assms by (cases a) (auto simp: Let_def split: sum.splits list.splits if_splits)

lemma emitted_le_iterations: "emitted s as \<le> iterations as"
proof (induction as arbitrary: s)
  case Nil
  then show ?case by simp
next
  case (Cons a as)
  show ?case
  proof (cases "step s a")
    case (Inl p)
    then show ?thesis by simp
  next
    case (Inr s')
    show ?thesis
    proof (cases a)
      case (Iterate env)
      with Inr Cons.IH [of s'] show ?thesis by simp
    qed (use Inr Cons.IH [of s'] step_keeps_sequence [OF Inr] in simp_all)
  qed
qed

lemma received_positions:
  assumes inv: "seq_inv s k"
  shows "\<exists>ps. sorted_wrt (<) ps \<and> (\<forall>i \<in> set ps. 0 < i \<and> i \<le> k)
           \<and> map Sequence (received_on s c) = map of_nat ps"
proof (cases "c < length (chans (rw (loop s)))")
  case True
  from seq_invD(4) [OF inv True] obtain ps where
    ps: "sorted_wrt (<) ps" "\<forall>i \<in> set ps. 0 < i \<and> i \<le> k"
      "map Sequence (observed s c) = map of_nat ps"
    by blast
  let ?n = "length (received_on s c)"
  from ps(3) have "map Sequence (received_on s c) = take ?n (map of_nat ps)"
    by (simp add: observed_def) (metis append_eq_conv_conj length_map)
  then have m: "map Sequence (received_on s c) = map of_nat (take ?n ps)"
    by (simp add: take_map)
  have "sorted_wrt (<) (take ?n ps @ drop ?n ps)" using ps(1) by simp
  then have "sorted_wrt (<) (take ?n ps)" by (simp only: sorted_wrt_append)
  moreover have "\<forall>i \<in> set (take ?n ps). 0 < i \<and> i \<le> k"
    using ps(2) by (auto dest: in_set_takeD)
  ultimately show ?thesis using m by blast
next
  case False
  from seq_invD(3) [OF inv] False have "\<forall>x \<in> set (received s). fst x \<noteq> c" by fastforce
  then have "received_on s c = []" by (rule received_on_empty)
  then show ?thesis by (intro exI [of _ "[]"]) simp
qed

text \<open>
  Claim C5, with the counter as the code has it. In any run of a started
  Reader with its clients (passes of the loop interleaved in any way with
  consumers receiving, with \<open>Subscribe\<close>, \<open>Unsubscribe\<close> and \<open>Stop\<close>, and with
  calls of the Manager), the events a consumer receives from its channel, in
  the order it receives them, were created at strictly increasing positions
  \<open>1 \<le> i \<le> emitted\<close> in the loop's stream of events, and each carries its
  position modulo \<open>2^32\<close> as sequence number. Hence, as long as the loop has
  created fewer than \<open>2^32\<close> events (passes that create no event do not
  count), the sequence numbers a consumer receives strictly increase.
\<close>

theorem sequence_numbers_increase:
  assumes "run (started w pn sid bs) as = Inr s"
  shows "(\<exists>ps. sorted_wrt (<) ps
            \<and> (\<forall>i \<in> set ps. 0 < i \<and> i \<le> emitted (started w pn sid bs) as)
            \<and> map Sequence (received_on s c) = map of_nat ps)
       \<and> (emitted (started w pn sid bs) as < 2 ^ 32 \<longrightarrow>
            sorted_wrt (<) (map (\<lambda>e. unat (Sequence e)) (received_on s c)))"
proof -
  let ?k = "emitted (started w pn sid bs) as"
  from seq_inv_run [OF seq_inv_started assms] have inv: "seq_inv s ?k" by simp
  from received_positions [OF inv, of c] obtain ps where
    ps: "sorted_wrt (<) ps" "\<forall>i \<in> set ps. 0 < i \<and> i \<le> ?k"
      "map Sequence (received_on s c) = map of_nat ps"
    by blast
  have "sorted_wrt (<) (map (\<lambda>e. unat (Sequence e)) (received_on s c))" if "?k < 2 ^ 32"
  proof -
    have "map (\<lambda>e. unat (Sequence e)) (received_on s c)
        = map unat (map Sequence (received_on s c))"
      by simp
    also have "\<dots> = map (\<lambda>i. unat (of_nat i :: 32 word)) ps"
      by (simp add: ps(3))
    also have "\<dots> = map (\<lambda>i. i) ps"
    proof (rule map_cong [OF refl])
      fix i assume "i \<in> set ps"
      with ps(2) that have "i < 2 ^ 32" by fastforce
      then show "unat (of_nat i :: 32 word) = i" by (simp add: unat_of_nat)
    qed
    finally show ?thesis using ps(1) by simp
  qed
  with ps show ?thesis by blast
qed

subsection \<open>A run long enough for the counter to wrap\<close>

lemma closed_world_Read:
  "Read (fst (ClosePort (ex_world False) ''COM1'' ''id-1'' None)) ''COM1'' ''id-1'' n renv
     = (fst (ClosePort (ex_world False) ''COM1'' ''id-1'' None), Inl ErrPortNotOpen)"
  by (simp add: Read_def ValidateSession_def ClosePort_def closeSessionLocked_def ex_world_eq)

lemma long_run_pass:
  fixes q :: "32 word"
  defines "wc \<equiv> fst (ClosePort (ex_world False) ''COM1'' ''id-1'' None)"
  defines "env \<equiv> ex_iter_env \<lparr>port_Read_data = [], port_Read_err = None, now_Read = 40\<rparr>"
  shows "run \<lparr>loop = \<lparr>world = wc, rw = ex_reader, sequence = q\<rparr>, alive = True, received = L\<rparr>
           (Iterate env # Receive 0 # as)
       = run \<lparr>loop = \<lparr>world = wc, rw = ex_reader, sequence = q + 1\<rparr>, alive = True,
               received = L @ [(0, \<lparr>Data = [], Timestamp = 50, Sequence = q + 1,
                                      Error = Some ErrPortNotOpen\<rparr>)]\<rparr> as"
proof -
  let ?st = "\<lparr>world = wc, rw = ex_reader, sequence = q\<rparr>"
  let ?ev = "\<lparr>Data = [], Timestamp = 50, Sequence = q + 1, Error = Some ErrPortNotOpen\<rparr>"
  let ?rw1 = "ex_reader\<lparr>chans := [\<lparr>chan_buf = [?ev], chan_closed = False\<rparr>]\<rparr>"
  have rd: "Read (world ?st) (portName (rdr (rw ?st))) (sessionID (rdr (rw ?st)))
              (bufferSize (rdr (rw ?st))) (read_env env) = (wc, Inl ErrPortNotOpen)"
    by (simp add: ex_reader_eq wc_def closed_world_Read)
  have b: "broadcast ex_reader ?ev = Inr ?rw1"
    by (simp add: broadcast_def ex_reader_eq chan_cap_def)
  have "readLoop_iter ?st env = readLoop_emit ?st wc [] (Some ErrPortNotOpen) (now_Timestamp env)"
    using readLoop_iter_default [OF _ _ _ rd] by (simp add: ex_reader_eq env_def ex_iter_env_def)
  also have "\<dots> = Inr (\<lparr>world = wc, rw = ?rw1, sequence = q + 1\<rparr>, Continue, 10)"
    using b by (simp add: readLoop_emit_def env_def ex_iter_env_def)
  finally have it: "readLoop_iter ?st env = Inr (\<lparr>world = wc, rw = ?rw1, sequence = q + 1\<rparr>, Continue, 10)" .
  have s1: "step \<lparr>loop = ?st, alive = True, received = L\<rparr> (Iterate env)
      = Inr \<lparr>loop = \<lparr>world = wc, rw = ?rw1, sequence = q + 1\<rparr>, alive = True, received = L\<rparr>"
    using it by simp
  have s2: "step \<lparr>loop = \<lparr>world = wc, rw = ?rw1, sequence = q + 1\<rparr>, alive = True, received = L\<rparr>
              (Receive 0)
      = Inr \<lparr>loop = \<lparr>world = wc, rw = ex_reader, sequence = q + 1\<rparr>, alive = True,
              received = L @ [(0, ?ev)]\<rparr>"
    by (simp add: with_rw_def ex_reader_eq)
  show ?thesis using s1 s2 by simp
qed

lemma long_run_passes:
  fixes q :: "32 word"
  defines "wc \<equiv> fst (ClosePort (ex_world False) ''COM1'' ''id-1'' None)"
  defines "env \<equiv> ex_iter_env \<lparr>port_Read_data = [], port_Read_err = None, now_Read = 40\<rparr>"
  shows "run \<lparr>loop = \<lparr>world = wc, rw = ex_reader, sequence = q\<rparr>, alive = True, received = L\<rparr>
           (concat (replicate n [Iterate env, Receive 0]))
       = Inr \<lparr>loop = \<lparr>world = wc, rw = ex_reader, sequence = q + of_nat n\<rparr>, alive = True,
               received = L @ map (\<lambda>i. (0, \<lparr>Data = [], Timestamp = 50,
                                     Sequence = q + of_nat (Suc i),
                                     Error = Some ErrPortNotOpen\<rparr>)) [0..<n]\<rparr>"
proof (induction n arbitrary: q L)
  case 0
  then show ?case by simp
next
  case (Suc n)
  let ?e1 = "(0 :: nat, \<lparr>Data = [], Timestamp = 50, Sequence = q + 1,
                          Error = Some ErrPortNotOpen\<rparr>)"
  have st: "run \<lparr>loop = \<lparr>world = wc, rw = ex_reader, sequence = q\<rparr>, alive = True, received = L\<rparr>
           (concat (replicate (Suc n) [Iterate env, Receive 0]))
     = run \<lparr>loop = \<lparr>world = wc, rw = ex_reader, sequence = q + 1\<rparr>, alive = True,
               received = L @ [?e1]\<rparr>
           (concat (replicate n [Iterate env, Receive 0]))"
    using long_run_pass [of q L "concat (replicate n [Iterate env, Receive 0])"]
    by (simp add: wc_def env_def)
  have ih: "run \<lparr>loop = \<lparr>world = wc, rw = ex_reader, sequence = q + 1\<rparr>, alive = True,
               received = L @ [?e1]\<rparr>
           (concat (replicate n [Iterate env, Receive 0]))
     = Inr \<lparr>loop = \<lparr>world = wc, rw = ex_reader, sequence = (q + 1) + of_nat n\<rparr>, alive = True,
               received = (L @ [?e1]) @ map (\<lambda>i. (0, \<lparr>Data = [], Timestamp = 50,
                                     Sequence = (q + 1) + of_nat (Suc i),
                                     Error = Some ErrPortNotOpen\<rparr>)) [0..<n]\<rparr>"
    by (rule Suc.IH)
  have sq: "(q + 1) + of_nat n = q + of_nat (Suc n)"
    by simp
  have m: "(L @ [?e1]) @ map (\<lambda>i. (0 :: nat, \<lparr>Data = [], Timestamp = 50,
                                     Sequence = (q + 1) + of_nat (Suc i),
                                     Error = Some ErrPortNotOpen\<rparr>)) [0..<n]
        = L @ map (\<lambda>i. (0, \<lparr>Data = [], Timestamp = 50,
                                     Sequence = q + of_nat (Suc i),
                                     Error = Some ErrPortNotOpen\<rparr>)) [0..<Suc n]"
    by (simp only: map_upt_Suc) (simp add: ac_simps)
  show ?case by (simp only: st ih sq m)
qed

lemma long_run_eq:
  "run (started (ex_world False) ''COM1'' ''id-1'' 0) (long_run n)
     = Inr \<lparr>loop = \<lparr>world = fst (ClosePort (ex_world False) ''COM1'' ''id-1'' None),
                     rw = ex_reader, sequence = of_nat n\<rparr>,
             alive = True,
             received = map (\<lambda>i. (0, \<lparr>Data = [], Timestamp = 50, Sequence = of_nat (Suc i),
                                     Error = Some ErrPortNotOpen\<rparr>)) [0..<n]\<rparr>"
proof -
  have "run (started (ex_world False) ''COM1'' ''id-1'' 0) (long_run n)
     = run \<lparr>loop = \<lparr>world = fst (ClosePort (ex_world False) ''COM1'' ''id-1'' None),
                     rw = ex_reader, sequence = 0\<rparr>, alive = True, received = []\<rparr>
         (concat (replicate n
           [Iterate (ex_iter_env \<lparr>port_Read_data = [], port_Read_err = None, now_Read = 40\<rparr>),
            Receive 0]))"
    by (simp add: long_run_def started_def ex_reader_def with_rw_def)
  then show ?thesis
    using long_run_passes [of 0 "[]" n] by simp
qed

lemma long_run_sequences_eq:
  "long_run_sequences n = map (\<lambda>i. unat (of_nat (Suc i) :: 32 word)) [0..<n]"
  by (simp add: long_run_sequences_def long_run_eq received_on_def filter_map comp_def)

lemma long_run_sequences_nth:
  "length (long_run_sequences n) = n"
  "i < n \<Longrightarrow> long_run_sequences n ! i = unat (of_nat (Suc i) :: 32 word)"
  by (simp_all add: long_run_sequences_eq)

lemma iterations_long_run: "iterations (long_run n) = n"
proof -
  have "iterations (concat (replicate n [Iterate e, Receive 0])) = n" for e
    by (induction n) simp_all
  then show ?thesis by (simp add: long_run_def)
qed

lemma ValidateSession_update_session:
  assumes "ValidateSession w p sid = Inr a" and "a < length (heap w)"
    and "\<And>s. ID (f s) = ID s" and "\<And>s. closed (f s) = closed s"
  shows "ValidateSession (update_session w a f) p sid = Inr a"
  using assms
  by (auto simp: ValidateSession_def heap_update_session split: option.splits if_splits)

lemma idle_run_emits_nothing:
  assumes "ValidateSession w (portName (rdr x)) (sessionID (rdr x)) = Inr a"
    and "a < length (heap w)" and "wf_reader x" and "running (rdr x)"
    and "0 \<le> bufferSize (rdr x)"
  shows "emitted \<lparr>loop = \<lparr>world = w, rw = x, sequence = q\<rparr>, alive = True, received = L\<rparr>
           (idle_run n) = 0"
  using assms(1,2)
proof (induction n arbitrary: w)
  case 0
  then show ?case by (simp add: idle_run_def)
next
  case (Suc n)
  let ?env = "ex_iter_env \<lparr>port_Read_data = [], port_Read_err = None, now_Read = 40\<rparr>"
  let ?f = "\<lambda>s. s\<lparr>Statistics := (Statistics s)\<lparr>BytesReceived := BytesReceived (Statistics s) + 0,
              LastActivity := 40\<rparr>\<rparr>"
  let ?w' = "update_session w a ?f"
  let ?st = "\<lparr>world = w, rw = x, sequence = q\<rparr>"
  have rd: "Read (world ?st) (portName (rdr (rw ?st))) (sessionID (rdr (rw ?st)))
              (bufferSize (rdr (rw ?st))) (read_env ?env) = (?w', Inr [])"
    using Suc.prems(1) assms(5) by (simp add: Read_def ex_iter_env_def)
  from assms(3,4) have ns: "\<not> stopChan (rdr x)" by (simp add: wf_reader_def)
  have it: "readLoop_iter ?st ?env = Inr (?st\<lparr>world := ?w'\<rparr>, Continue, 0)"
    using readLoop_iter_default [OF _ _ _ rd] assms(4) ns by (simp add: ex_iter_env_def)
  have v: "ValidateSession ?w' (portName (rdr x)) (sessionID (rdr x)) = Inr a"
    by (rule ValidateSession_update_session [OF Suc.prems]) simp_all
  have l: "a < length (heap ?w')" using Suc.prems(2) by simp
  from Suc.IH [OF v l] it show ?case
    by (simp add: idle_run_def)
qed

lemma iterations_idle_run: "iterations (idle_run n) = n"
  by (induction n) (simp_all add: idle_run_def)

lemma idle_run_started:
  "emitted (started (ex_world False) ''COM1'' ''id-1'' 0) (idle_run n) = 0"
proof -
  let ?x = "fst (Start (ex_world False) (NewReader ''COM1'' ''id-1'' 0))"
  have x: "?x = \<lparr>rdr = \<lparr>portName = ''COM1'', sessionID = ''id-1'', bufferSize = 1024,
                        running = True, stopChan = False, subscribers = []\<rparr>,
                 chans = []\<rparr>"
    by (simp add: Start_def NewReader_def ValidateSession_ex_world)
  have "emitted \<lparr>loop = \<lparr>world = ex_world False, rw = ?x, sequence = 0\<rparr>, alive = True,
                  received = []\<rparr> (idle_run n) = 0"
  proof (rule idle_run_emits_nothing)
    show "ValidateSession (ex_world False) (portName (rdr ?x)) (sessionID (rdr ?x)) = Inr 0"
      by (simp add: x ValidateSession_ex_world)
    show "0 < length (heap (ex_world False))" by (simp add: ex_world_eq)
    show "wf_reader ?x" by (simp add: x wf_reader_def)
    show "running (rdr ?x)" by (simp add: x)
    show "0 \<le> bufferSize (rdr ?x)" by (simp add: x)
  qed
  then show ?thesis by (simp add: started_def)
qed

theorem sequence_numbers_increase_witness:
  "emitted (started (ex_world False) ''COM1'' ''id-1'' 0) (long_run 3) < 2 ^ 32
   \<and> long_run_sequences 3 = [1, 2, 3]
   \<and> sorted_wrt (<) (long_run_sequences 3)
   \<and> iterations (idle_run 4294967297) = 4294967297
   \<and> emitted (started (ex_world False) ''COM1'' ''id-1'' 0) (idle_run 4294967297) < 2 ^ 32"
proof -
  have "emitted (started (ex_world False) ''COM1'' ''id-1'' 0) (long_run 3) \<le> 3"
    using emitted_le_iterations [of "started (ex_world False) ''COM1'' ''id-1'' 0" "long_run 3"]
    by (simp add: iterations_long_run)
  then have i: "emitted (started (ex_world False) ''COM1'' ''id-1'' 0) (long_run 3) < 2 ^ 32"
    by simp
  have e: "long_run_sequences 3 = [1, 2, 3]"
    by (simp add: long_run_sequences_eq upt_conv_Cons)
  from sequence_numbers_increase [OF long_run_eq, of 3 0] i
  have "sorted_wrt (<) (long_run_sequences 3)"
    by (simp add: long_run_sequences_def long_run_eq)
  moreover have "iterations (idle_run 4294967297) = 4294967297"
    by (rule iterations_idle_run)
  moreover have "emitted (started (ex_world False) ''COM1'' ''id-1'' 0) (idle_run 4294967297) < 2 ^ 32"
    by (simp only: idle_run_started) simp
  ultimately show ?thesis using i e by blast
qed

text \<open>
  Without the bound on the number of events created the strict increase
  fails. The counter is a \<^verbatim>\<open>uint32\<close> that
  \<^verbatim>\<open>atomic.AddUint32\<close> increments modulo \<open>2^32\<close>: in the long run with \<open>2^32\<close>
  passes the client receives \<open>2^32\<close> events, the one before the last with
  sequence number \<open>4294967295\<close> and the last one with sequence number \<open>0\<close>.
\<close>

theorem sequence_numbers_wrap_counterexample:
  "length (long_run_sequences 4294967296) = 4294967296
   \<and> long_run_sequences 4294967296 ! 4294967294 = 4294967295
   \<and> long_run_sequences 4294967296 ! 4294967295 = 0"
proof -
  have a: "(4294967294 :: nat) < 4294967296" and b: "(4294967295 :: nat) < 4294967296"
    by simp_all
  have "unat (of_nat (Suc 4294967294) :: 32 word) = 4294967295"
    and "unat (of_nat (Suc 4294967295) :: 32 word) = 0"
    by simp_all
  with long_run_sequences_nth(1) [of 4294967296]
    long_run_sequences_nth(2) [OF a] long_run_sequences_nth(2) [OF b]
  show ?thesis by (simp only:)
qed

section \<open>Properties of the LineReader\<close>

declare ReadLine_loop.simps [simp del]

lemma ReadLine_loop_line:
  "ReadLine_loop lr cl evs = (lr', rest, Some (Inr line))
     \<Longrightarrow> delimiter lr \<notin> set line \<or> int (length line) > maxLine lr"
proof (induction lr cl evs rule: ReadLine_loop.induct)
  case (1 lr cl evs)
  note p = "1.prems" [unfolded ReadLine_loop.simps [of lr cl evs]]
  show ?case
  proof (cases "delimiter lr \<in> set (buffer lr)")
    case True
    with p have "line = takeWhile (\<lambda>b. b \<noteq> delimiter lr) (buffer lr)"
      by simp
    then have "delimiter lr \<notin> set line"
      by (auto dest: set_takeWhileD)
    then show ?thesis ..
  next
    case nd: False
    show ?thesis
    proof (cases evs)
      case Nil
      with nd p have "line = buffer lr"
        by (simp split: if_splits)
      with nd show ?thesis by simp
    next
      case (Cons event rest')
      show ?thesis
      proof (cases "Error event")
        case (Some e)
        with nd Cons p show ?thesis
          by simp
      next
        case None
        show ?thesis
        proof (cases "int (length (buffer lr @ Data event)) > maxLine lr")
          case True
          with nd Cons None p have "line = buffer lr @ Data event"
            by simp
          with True show ?thesis by simp
        next
          case False
          with nd Cons None p
          have "ReadLine_loop (lr\<lparr>buffer := buffer lr @ Data event\<rparr>) cl rest'
                  = (lr', rest, Some (Inr line))"
            by simp
          from "1.IH" [OF nd Cons None False this] show ?thesis by simp
        qed
      qed
    qed
  qed
qed

text \<open>
  Claim C10, as the code has it. On a channel that is closed and empty,
  \<open>ReadLine\<close> returns the whole buffer as the last line, with no error, and
  empties it, if the buffer is non-empty and holds no delimiter; it returns no
  line and \<open>ErrPortClosed\<close> if the buffer is empty. If the buffer holds a
  delimiter, then whatever the state of the channel, \<open>ReadLine\<close> returns the
  bytes before the first delimiter, which do not include the delimiter, and
  keeps the bytes after it. Every line that \<open>ReadLine\<close> returns either is free
  of the delimiter or is the partial line, longer than \<open>maxLine\<close>, of the
  overflow path.
\<close>

theorem ReadLine_after_close:
  "(chan_closed ch \<and> chan_buf ch = [] \<and> buffer lr \<noteq> [] \<and> delimiter lr \<notin> set (buffer lr)
      \<longrightarrow> ReadLine lr ch = (lr\<lparr>buffer := []\<rparr>, ch, Some (Inr (buffer lr))))
   \<and> (chan_closed ch \<and> chan_buf ch = [] \<and> buffer lr = []
      \<longrightarrow> ReadLine lr ch = (lr, ch, Some (Inl ErrPortClosed)))
   \<and> (delimiter lr \<in> set (buffer lr)
      \<longrightarrow> ReadLine lr ch =
            (lr\<lparr>buffer := tl (dropWhile (\<lambda>b. b \<noteq> delimiter lr) (buffer lr))\<rparr>, ch,
             Some (Inr (takeWhile (\<lambda>b. b \<noteq> delimiter lr) (buffer lr))))
          \<and> buffer lr = takeWhile (\<lambda>b. b \<noteq> delimiter lr) (buffer lr) @ [delimiter lr]
               @ tl (dropWhile (\<lambda>b. b \<noteq> delimiter lr) (buffer lr))
          \<and> delimiter lr \<notin> set (takeWhile (\<lambda>b. b \<noteq> delimiter lr) (buffer lr)))
   \<and> (ReadLine lr ch = (lr', ch', Some (Inr line))
      \<longrightarrow> delimiter lr \<notin> set line \<or> int (length line) > maxLine lr)"
proof (intro conjI impI)
  assume "chan_closed ch \<and> chan_buf ch = [] \<and> buffer lr \<noteq> [] \<and> delimiter lr \<notin> set (buffer lr)"
  then show "ReadLine lr ch = (lr\<lparr>buffer := []\<rparr>, ch, Some (Inr (buffer lr)))"
    by (simp add: ReadLine_def ReadLine_loop.simps [of lr])
next
  assume "chan_closed ch \<and> chan_buf ch = [] \<and> buffer lr = []"
  then show "ReadLine lr ch = (lr, ch, Some (Inl ErrPortClosed))"
    by (simp add: ReadLine_def ReadLine_loop.simps [of lr])
next
  assume d: "delimiter lr \<in> set (buffer lr)"
  then show "ReadLine lr ch =
            (lr\<lparr>buffer := tl (dropWhile (\<lambda>b. b \<noteq> delimiter lr) (buffer lr))\<rparr>, ch,
             Some (Inr (takeWhile (\<lambda>b. b \<noteq> delimiter lr) (buffer lr))))"
    by (simp add: ReadLine_def ReadLine_loop.simps [of lr])
  from d have "dropWhile (\<lambda>b. b \<noteq> delimiter lr) (buffer lr) \<noteq> []"
    by (auto simp: dropWhile_eq_Nil_conv)
  moreover from this have "hd (dropWhile (\<lambda>b. b \<noteq> delimiter lr) (buffer lr)) = delimiter lr"
    using hd_dropWhile [of "\<lambda>b. b \<noteq> delimiter lr" "buffer lr"] by simp
  ultimately have "dropWhile (\<lambda>b. b \<noteq> delimiter lr) (buffer lr)
      = delimiter lr # tl (dropWhile (\<lambda>b. b \<noteq> delimiter lr) (buffer lr))"
    by (cases "dropWhile (\<lambda>b. b \<noteq> delimiter lr) (buffer lr)") auto
  then show "buffer lr = takeWhile (\<lambda>b. b \<noteq> delimiter lr) (buffer lr) @ [delimiter lr]
               @ tl (dropWhile (\<lambda>b. b \<noteq> delimiter lr) (buffer lr))"
    using takeWhile_dropWhile_id [of "\<lambda>b. b \<noteq> delimiter lr" "buffer lr"] by simp
  show "delimiter lr \<notin> set (takeWhile (\<lambda>b. b \<noteq> delimiter lr) (buffer lr))"
    by (auto dest: set_takeWhileD)
next
  assume "ReadLine lr ch = (lr', ch', Some (Inr line))"
  then obtain rest where "ReadLine_loop lr (chan_closed ch) (chan_buf ch) = (lr', rest, Some (Inr line))"
    by (auto simp: ReadLine_def split: prod.splits)
  then show "delimiter lr \<notin> set line \<or> int (length line) > maxLine lr"
    by (rule ReadLine_loop_line)
qed

lemma ex_line_reader_eq:
  "ex_line_reader = \<lparr>delimiter = 10, buffer = [98, 10, 99], maxLine = 4096\<rparr>"
  by (simp add: ex_line_reader_def ReadLine_def NewLineReader_def ReadLine_loop.simps)

theorem ReadLine_after_close_witness:
  "ReadLine \<lparr>delimiter = 10, buffer = [99], maxLine = 4096\<rparr> closed_chan
     = (\<lparr>delimiter = 10, buffer = [], maxLine = 4096\<rparr>, closed_chan, Some (Inr [99]))
   \<and> ReadLine \<lparr>delimiter = 10, buffer = [], maxLine = 4096\<rparr> closed_chan
     = (\<lparr>delimiter = 10, buffer = [], maxLine = 4096\<rparr>, closed_chan, Some (Inl ErrPortClosed))
   \<and> ReadLine ex_line_reader make_chan
     = (\<lparr>delimiter = 10, buffer = [99], maxLine = 4096\<rparr>, make_chan, Some (Inr [98]))"
  using ReadLine_after_close [of closed_chan "\<lparr>delimiter = 10, buffer = [99], maxLine = 4096\<rparr>"]
    ReadLine_after_close [of closed_chan "\<lparr>delimiter = 10, buffer = [], maxLine = 4096\<rparr>"]
    ReadLine_after_close [of make_chan ex_line_reader]
  by (simp add: closed_chan_def ex_line_reader_eq)

text \<open>
  The LineReader that holds \<^verbatim>\<open>"b\nc"\<close> has a non-empty buffer, and on the
  closed, empty channel \<open>ReadLine\<close> returns \<^verbatim>\<open>"b"\<close>, not the remaining buffered
  bytes; \<^verbatim>\<open>"c"\<close> stays in the buffer.
\<close>

theorem ReadLine_after_close_counterexample:
  "buffer ex_line_reader = [98, 10, 99]
   \<and> chan_closed closed_chan \<and> chan_buf closed_chan = []
   \<and> ReadLine ex_line_reader closed_chan
       = (ex_line_reader\<lparr>buffer := [99]\<rparr>, closed_chan, Some (Inr [98]))"
  by (simp add: ex_line_reader_eq closed_chan_def ReadLine_def ReadLine_loop.simps)

section \<open>Properties of the Scanner\<close>

lemma sorted_names_unique:
  fixes xs ys :: "'a list" and k :: "'a \<Rightarrow> string"
  assumes "mset xs = mset ys"
    and "sorted_wrt (\<lambda>a b. \<not> k b < k a) xs" and "sorted_wrt (\<lambda>a b. \<not> k b < k a) ys"
  shows "map k xs = map k ys"
proof -
  have "sorted (map k xs)" "sorted (map k ys)"
    using assms(2,3) by (simp_all add: sorted_map not_less)
  moreover have "mset (map k xs) = mset (map k ys)"
    using assms(1) by (metis mset_map)
  ultimately have "sort (map k ys) = map k xs" "sort (map k ys) = map k ys"
    by (auto intro: properties_for_sort)
  then show ?thesis by simp
qed

lemma portsEqual_I:
  assumes n: "map Name xs = map Name ys"
    and o: "\<And>x y. x \<in> set xs \<Longrightarrow> y \<in> set ys \<Longrightarrow> Name x = Name y \<Longrightarrow> IsOpen x = IsOpen y"
  shows "portsEqual xs ys"
proof -
  from n have l: "length xs = length ys" by (metis length_map)
  have "Name x = Name y \<and> IsOpen x = IsOpen y" if "(x, y) \<in> set (zip xs ys)" for x y
  proof -
    from that obtain i where i: "i < length xs" "i < length ys" "x = xs ! i" "y = ys ! i"
      by (auto simp: set_zip)
    have "Name x = map Name xs ! i" using i by simp
    also have "\<dots> = Name y" using i n by simp
    finally have "Name x = Name y" .
    moreover from i have "x \<in> set xs" "y \<in> set ys" by simp_all
    ultimately show ?thesis using o by blast
  qed
  with l show ?thesis by (auto simp: portsEqual_def list_all_iff)
qed

lemma Scan_Inr:
  "Scan pf s w (Inr ports) =
     (s\<lparr>cachedPorts := sort_Slice pf (\<lambda>a b. Name a < Name b)
           (map (scan_port pf s w) (filter (\<lambda>p. \<not> isExcluded pf s (pd_Name p)) ports))\<rparr>,
      Inr (sort_Slice pf (\<lambda>a b. Name a < Name b)
           (map (scan_port pf s w) (filter (\<lambda>p. \<not> isExcluded pf s (pd_Name p)) ports))))"
  by (simp add: Scan_def Let_def)

lemma scan_port_cached [simp]: "scan_port pf (s\<lparr>cachedPorts := c\<rparr>) w = scan_port pf s w"
  by (rule ext) (simp add: scan_port_def)

lemma isExcluded_cached [simp]: "isExcluded pf (s\<lparr>cachedPorts := c\<rparr>) = isExcluded pf s"
  by (rule ext) (simp add: isExcluded_def)

lemma scan_port_IsOpen:
  "IsOpen (scan_port pf s w p) \<longleftrightarrow> manager s \<and> GetSession w (Name (scan_port pf s w p)) \<noteq> None"
  by (simp add: scan_port_def Let_def)

lemma Name_scan_port [simp]: "Name (scan_port pf s w p) = pd_Name p"
  by (simp add: scan_port_def Let_def)

text \<open>
  Claim C8. Let \<^verbatim>\<open>sort.Slice\<close> keep its contract. A \<open>Scan\<close> whose enumeration
  succeeds returns, and caches, a rearrangement of the \<open>PortInfo\<close> records it
  built for the enumerated ports that no pattern excludes, sorted in ascending
  order by port name: the names in the result are the sorted list of those
  ports' names. If a second \<open>Scan\<close> follows with the Manager unchanged and the
  enumerator reporting the same ports again, in whatever order, it returns the
  same names in the same order, and the two results are equal in the sense of
  \<open>portsEqual\<close>.
\<close>

theorem Scan_sorted_and_repeatable:
  assumes srt: "sorts_by_name pf" and same: "mset ports' = mset ports"
  shows "\<exists>xs ys. Scan pf s w (Inr ports) = (s\<lparr>cachedPorts := xs\<rparr>, Inr xs)
           \<and> Scan pf (s\<lparr>cachedPorts := xs\<rparr>) w (Inr ports') = (s\<lparr>cachedPorts := ys\<rparr>, Inr ys)
           \<and> mset xs = mset (map (scan_port pf s w)
                               (filter (\<lambda>p. \<not> isExcluded pf s (pd_Name p)) ports))
           \<and> mset ys = mset xs
           \<and> map Name xs = sort (map pd_Name (filter (\<lambda>p. \<not> isExcluded pf s (pd_Name p)) ports))
           \<and> map Name ys = map Name xs
           \<and> sorted (map Name xs)
           \<and> portsEqual xs ys"
proof -
  let ?f = "scan_port pf s w"
  let ?g = "\<lambda>p. \<not> isExcluded pf s (pd_Name p)"
  let ?lt = "\<lambda>a b :: PortInfo. Name a < Name b"
  let ?xs = "sort_Slice pf ?lt (map ?f (filter ?g ports))"
  let ?ys = "sort_Slice pf ?lt (map ?f (filter ?g ports'))"
  from srt have mx: "mset ?xs = mset (map ?f (filter ?g ports))"
    and my: "mset ?ys = mset (map ?f (filter ?g ports'))"
    and sx: "sorted_wrt (\<lambda>a b. \<not> Name b < Name a) ?xs"
    and sy: "sorted_wrt (\<lambda>a b. \<not> Name b < Name a) ?ys"
    by (simp_all add: sorts_by_name_def)
  have "mset (map ?f (filter ?g ports')) = mset (map ?f (filter ?g ports))"
    by (simp only: mset_map mset_filter same)
  with mx my have m: "mset ?xs = mset ?ys" by simp
  have names: "map Name ?xs = map Name ?ys"
    by (rule sorted_names_unique [OF m sx sy])
  have open_x: "IsOpen x \<longleftrightarrow> manager s \<and> GetSession w (Name x) \<noteq> None" if "x \<in> set ?xs" for x
  proof -
    from that have "x \<in> set_mset (mset ?xs)" by (simp only: set_mset_mset)
    then have "x \<in> set_mset (mset (map ?f (filter ?g ports)))" by (simp only: mx)
    then have "x \<in> set (map ?f (filter ?g ports))" by (simp only: set_mset_mset)
    then obtain p where "x = ?f p" by (auto simp only: set_map)
    then show ?thesis by (simp only: scan_port_IsOpen Name_scan_port)
  qed
  have sxy: "set ?ys = set ?xs" by (rule mset_eq_setD [OF m [symmetric]])
  have open_y: "IsOpen y \<longleftrightarrow> manager s \<and> GetSession w (Name y) \<noteq> None" if "y \<in> set ?ys" for y
  proof -
    from that have "y \<in> set ?xs" by (simp only: sxy)
    then show ?thesis by (rule open_x)
  qed
  have pe: "portsEqual ?xs ?ys"
    by (rule portsEqual_I [OF names]) (simp add: open_x open_y)
  have s1: "sorted (map Name ?xs)" using sx by (simp add: sorted_map not_less)
  have "mset (map Name ?xs) = mset (map Name (map ?f (filter ?g ports)))"
    by (simp only: mset_map mx)
  also have "map Name (map ?f (filter ?g ports)) = map pd_Name (filter ?g ports)"
    by simp
  finally have "sort (map pd_Name (filter ?g ports)) = map Name ?xs"
    using s1 by (intro properties_for_sort) simp_all
  then have nx: "map Name ?xs = sort (map pd_Name (filter ?g ports))" by simp
  have e1: "Scan pf s w (Inr ports) = (s\<lparr>cachedPorts := ?xs\<rparr>, Inr ?xs)"
    by (rule Scan_Inr)
  have e2: "Scan pf (s\<lparr>cachedPorts := ?xs\<rparr>) w (Inr ports') = (s\<lparr>cachedPorts := ?ys\<rparr>, Inr ?ys)"
    by (simp add: Scan_Inr)
  show ?thesis
    apply (rule exI [of _ ?xs])
    apply (rule exI [of _ ?ys])
    apply (intro conjI)
           apply (rule e1)
          apply (rule e2)
         apply (rule mx)
        apply (rule m [symmetric])
       apply (rule nx)
      apply (rule names [symmetric])
     apply (rule s1)
    apply (rule pe)
    done
qed

subsection \<open>Insertion sort keeps the contract\<close>

lemma mset_insert_by: "mset (insert_by lt x ys) = add_mset x (mset ys)"
  by (induction ys) simp_all

lemma mset_sort_by: "mset (sort_by lt xs) = mset xs"
  by (induction xs) (simp_all add: mset_insert_by)

lemma set_insert_by: "set (insert_by lt x ys) = insert x (set ys)"
  by (metis mset_insert_by set_mset_add_mset_insert set_mset_mset)

lemma sorted_insert_by:
  fixes k :: "'a \<Rightarrow> 'b :: linorder"
  assumes "sorted_wrt (\<lambda>a b. \<not> k b < k a) ys"
  shows "sorted_wrt (\<lambda>a b. \<not> k b < k a) (insert_by (\<lambda>a b. k a < k b) x ys)"
  using assms by (induction ys) (auto simp: set_insert_by)

lemma sorted_sort_by:
  fixes k :: "'a \<Rightarrow> 'b :: linorder"
  shows "sorted_wrt (\<lambda>a b. \<not> k b < k a) (sort_by (\<lambda>a b. k a < k b) xs)"
  by (induction xs) (simp_all add: sorted_insert_by)

lemma sorts_by_name_ex_platform: "sorts_by_name ex_platform"
  by (simp add: sorts_by_name_def ex_platform_def mset_sort_by sorted_sort_by)

lemma ex_scan_names:
  "sort (map pd_Name (filter (\<lambda>p. \<not> isExcluded ex_platform ex_scanner (pd_Name p))
      [ex_port ''/dev/ttyS0'', ex_port ''COM1'', ex_port ''/dev/ttyUSB1'']))
   = [''/dev/ttyUSB1'', ''COM1'']"
  by (simp add: ex_platform_def ex_scanner_def ex_port_def isExcluded_def less_eq_char_def
      less_char_def)

theorem Scan_sorted_and_repeatable_witness:
  "sorts_by_name ex_platform
   \<and> mset [ex_port ''COM1'', ex_port ''/dev/ttyUSB1'', ex_port ''/dev/ttyS0'']
       = mset [ex_port ''/dev/ttyS0'', ex_port ''COM1'', ex_port ''/dev/ttyUSB1'']
   \<and> (\<exists>xs ys.
         Scan ex_platform ex_scanner (ex_world False)
           (Inr [ex_port ''/dev/ttyS0'', ex_port ''COM1'', ex_port ''/dev/ttyUSB1''])
           = (ex_scanner\<lparr>cachedPorts := xs\<rparr>, Inr xs)
       \<and> Scan ex_platform (ex_scanner\<lparr>cachedPorts := xs\<rparr>) (ex_world False)
           (Inr [ex_port ''COM1'', ex_port ''/dev/ttyUSB1'', ex_port ''/dev/ttyS0''])
           = (ex_scanner\<lparr>cachedPorts := ys\<rparr>, Inr ys)
       \<and> map Name xs = [''/dev/ttyUSB1'', ''COM1'']
       \<and> map Name ys = [''/dev/ttyUSB1'', ''COM1'']
       \<and> portsEqual xs ys)"
proof -
  have m: "mset [ex_port ''COM1'', ex_port ''/dev/ttyUSB1'', ex_port ''/dev/ttyS0'']
       = mset [ex_port ''/dev/ttyS0'', ex_port ''COM1'', ex_port ''/dev/ttyUSB1'']"
    by (simp add: add_mset_commute)
  from Scan_sorted_and_repeatable [OF sorts_by_name_ex_platform m, of ex_scanner "ex_world False"]
  obtain xs ys where
    a: "Scan ex_platform ex_scanner (ex_world False)
           (Inr [ex_port ''/dev/ttyS0'', ex_port ''COM1'', ex_port ''/dev/ttyUSB1''])
           = (ex_scanner\<lparr>cachedPorts := xs\<rparr>, Inr xs)"
    and b: "Scan ex_platform (ex_scanner\<lparr>cachedPorts := xs\<rparr>) (ex_world False)
           (Inr [ex_port ''COM1'', ex_port ''/dev/ttyUSB1'', ex_port ''/dev/ttyS0''])
           = (ex_scanner\<lparr>cachedPorts := ys\<rparr>, Inr ys)"
    and c: "map Name xs = sort (map pd_Name (filter (\<lambda>p. \<not> isExcluded ex_platform ex_scanner (pd_Name p))
      [ex_port ''/dev/ttyS0'', ex_port ''COM1'', ex_port ''/dev/ttyUSB1'']))"
    and d: "map Name ys = map Name xs"
    and e: "portsEqual xs ys"
    by (elim exE conjE) (rule that; assumption)
  from c have c': "map Name xs = [''/dev/ttyUSB1'', ''COM1'']" by (simp only: ex_scan_names)
  from d c' have d': "map Name ys = [''/dev/ttyUSB1'', ''COM1'']" by (simp only:)
  show ?thesis
    apply (intro conjI)
      apply (rule sorts_by_name_ex_platform)
     apply (rule m)
    apply (rule exI [of _ xs])
    apply (rule exI [of _ ys])
    apply (intro conjI)
        apply (rule a)
       apply (rule b)
      apply (rule c')
     apply (rule d')
    apply (rule e)
    done
qed

lemma Scan_example:
  "map (\<lambda>p. (Name p, IsOpen p, LockedBy p))
     (cachedPorts (fst (Scan ex_platform ex_scanner (ex_world False)
        (Inr [ex_port ''/dev/ttyS0'', ex_port ''COM1'', ex_port ''/dev/ttyUSB1'']))))
   = [(''/dev/ttyUSB1'', False, ''''), (''COM1'', True, ''alice'')]"
  by (simp add: Scan_Inr ex_platform_def ex_scanner_def ex_port_def isExcluded_def
      scan_port_def GetSession_def ex_world_eq Let_def less_char_def)

text \<open>
  Claim C9. For an interval that is zero or negative, \<open>WatchPorts\<close> starts no
  goroutine: whatever ticks the clock would deliver and whenever \<open>stop\<close> is
  closed, there is no call of \<open>Scan\<close> and no call of the callback, and the
  Scanner (its cache included) is as it was.
\<close>

theorem WatchPorts_nonpositive_interval:
  assumes "interval \<le> 0"
  shows "WatchPorts pf s interval evs = (s, [])"
  using assms by (simp add: WatchPorts_def)

theorem WatchPorts_nonpositive_interval_witness:
  "(0 :: int) \<le> 0 \<and> (- 5 :: int) \<le> 0
   \<and> WatchPorts ex_platform ex_scanner 0 [Tick (ex_world False) (Inr [ex_port ''COM1''])]
       = (ex_scanner, [])
   \<and> WatchPorts ex_platform ex_scanner (- 5) [Tick (ex_world False) (Inr [ex_port ''COM1''])]
       = (ex_scanner, [])
   \<and> snd (WatchPorts ex_platform ex_scanner 5 [Tick (ex_world False) (Inl 1)]) = [Scanned]"
proof -
  have a: "(0 :: int) \<le> 0" and b: "(- 5 :: int) \<le> 0" by simp_all
  have c: "snd (WatchPorts ex_platform ex_scanner 5 [Tick (ex_world False) (Inl 1)]) = [Scanned]"
    by (simp add: WatchPorts_def Scan_def)
  from WatchPorts_nonpositive_interval [OF a, of ex_platform ex_scanner
      "[Tick (ex_world False) (Inr [ex_port ''COM1''])]"]
    WatchPorts_nonpositive_interval [OF b, of ex_platform ex_scanner
      "[Tick (ex_world False) (Inr [ex_port ''COM1''])]"]
    a b c
  show ?thesis by simp
qed

end
